theory Spec2Isabelle
  imports Main "HOL-Library.Word" "HOL-Library.Sublist"
begin

section \<open>serialdump: constants and state\<close>

text \<open>
  A shallow embedding of \<^verbatim>\<open>tools/serial/serialdump.c\<close>: the transmit path of the main
  loop (bytes of standard input written to the serial line), the receive path (the
  per-byte \<^verbatim>\<open>switch(mode)\<close>, with the SLIP decoder) and \<^verbatim>\<open>print_hex_line\<close>.
  Bytes are \<open>8 word\<close>, the C \<^verbatim>\<open>int\<close>s \<^verbatim>\<open>index\<close> and \<^verbatim>\<open>flags\<close> are \<open>int\<close> (\<^verbatim>\<open>index\<close> stays between 0 and
  2048 and \<^verbatim>\<open>flags\<close> between 0 and 2, far from the limits of a machine \<^verbatim>\<open>int\<close>), the static array
  \<^verbatim>\<open>rxbuf\<close> is a list, and standard output and standard error are the strings printed so
  far.
\<close>

type_synonym byte = "8 word"

abbreviation SLIP_END :: byte where "SLIP_END \<equiv> 0xC0"
abbreviation SLIP_ESC :: byte where "SLIP_ESC \<equiv> 0xDB"
abbreviation SLIP_ESC_END :: byte where "SLIP_ESC_END \<equiv> 0xDC"
abbreviation SLIP_ESC_ESC :: byte where "SLIP_ESC_ESC \<equiv> 0xDD"

abbreviation HCOLS :: int where "HCOLS \<equiv> 20"
abbreviation ICOLS :: int where "ICOLS \<equiv> 18"

text \<open>\<^verbatim>\<open>sizeof(rxbuf)\<close>, for \<^verbatim>\<open>static unsigned char rxbuf[2048]\<close>.\<close>

abbreviation RXBUF_SIZE :: int where "RXBUF_SIZE \<equiv> 2048"

datatype mode =
    MODE_START_DATE
  | MODE_DATE
  | MODE_START_TEXT
  | MODE_TEXT
  | MODE_INT
  | MODE_HEX
  | MODE_SLIP_AUTO
  | MODE_SLIP
  | MODE_SLIP_HIDE

text \<open>
  The ways the loop leaves its normal course: \<^verbatim>\<open>exit\<close> after a failed \<^verbatim>\<open>read\<close> or \<^verbatim>\<open>write\<close>,
  and an access outside \<^verbatim>\<open>rxbuf\<close>, which C leaves undefined.
\<close>

datatype error = ReadFailed | WriteFailed | OutOfBounds

record state =
  mode :: mode
  index :: int
  flags :: int
  lastc :: byte
  rxbuf :: "byte list"
  out :: string
  err :: string

text \<open>The variables as \<^verbatim>\<open>main\<close> has them when it enters \<^verbatim>\<open>for(;;)\<close>, for the mode the options chose.\<close>

definition fresh :: "mode \<Rightarrow> state" where
  "fresh m = \<lparr>mode = m, index = 0, flags = 0, lastc = 0,
              rxbuf = replicate 2048 0, out = [], err = []\<rparr>"

section \<open>Formatting\<close>

abbreviation CR :: char where "CR \<equiv> CHR 0x0D"
abbreviation LF :: char where "LF \<equiv> CHR 0x0A"

text \<open>\<^verbatim>\<open>printf("%c", b)\<close>\<close>

definition byte_char :: "byte \<Rightarrow> char" where
  "byte_char b = char_of (unat b)"

definition digit_char :: "nat \<Rightarrow> char" where
  "digit_char n = ''0123456789ABCDEF'' ! n"

text \<open>\<^verbatim>\<open>printf("%02X", b)\<close>\<close>

definition hex2 :: "byte \<Rightarrow> string" where
  "hex2 b = [digit_char (unat b div 16), digit_char (unat b mod 16)]"

text \<open>\<^verbatim>\<open>printf("%03d ", b)\<close>: a byte has at most three decimal digits.\<close>

definition dec3 :: "byte \<Rightarrow> string" where
  "dec3 b = [digit_char (unat b div 100), digit_char (unat b div 10 mod 10),
             digit_char (unat b mod 10), CHR '' '']"

text \<open>The first loop of \<^verbatim>\<open>print_hex_line\<close>: the hex pairs, a space before every fourth.\<close>

function hex_cols :: "byte list \<Rightarrow> int \<Rightarrow> int \<Rightarrow> string" where
  "hex_cols outbuf idx i =
     (if i < idx
      then (if i mod 4 = 0 then '' '' else []) @ hex2 (outbuf ! nat i) @ hex_cols outbuf idx (i + 1)
      else [])"
  by pat_completeness auto
termination
  by (relation "measure (\<lambda>(outbuf, idx, i). nat (idx - i))") auto

text \<open>The second loop: two spaces for every byte the line lacks, from \<open>i = index\<close> up to \<open>HCOLS\<close>.\<close>

function pad_cols :: "int \<Rightarrow> string" where
  "pad_cols i =
     (if i < HCOLS
      then (if i mod 4 = 0 then '' '' else []) @ ''  '' @ pad_cols (i + 1)
      else [])"
  by pat_completeness auto
termination
  by (relation "measure (\<lambda>i. nat (HCOLS - i))") auto

text \<open>The third loop: the same bytes as characters, a dot for a byte below 30 or above 126.\<close>

function ascii_cols :: "byte list \<Rightarrow> int \<Rightarrow> int \<Rightarrow> string" where
  "ascii_cols outbuf idx i =
     (if i < idx
      then (if outbuf ! nat i < 30 \<or> outbuf ! nat i > 126 then ''.'' else [byte_char (outbuf ! nat i)])
           @ ascii_cols outbuf idx (i + 1)
      else [])"
  by pat_completeness auto
termination
  by (relation "measure (\<lambda>(outbuf, idx, i). nat (idx - i))") auto

declare hex_cols.simps [simp del] pad_cols.simps [simp del] ascii_cols.simps [simp del]

text \<open>What \<^verbatim>\<open>print_hex_line\<close> prints before the characters: the part whose width is at stake.\<close>

definition hex_section :: "string \<Rightarrow> byte list \<Rightarrow> int \<Rightarrow> string" where
  "hex_section pfx outbuf idx =
     CR # pfx @ hex_cols outbuf idx 0 @ ''  '' @ pad_cols idx"

definition print_hex_line :: "string \<Rightarrow> byte list \<Rightarrow> int \<Rightarrow> string" where
  "print_hex_line pfx outbuf idx = hex_section pfx outbuf idx @ ascii_cols outbuf idx 0"

text \<open>
  The \<^verbatim>\<open>do ... while(n < index)\<close> that shows a SLIP packet, one line for every \<open>HCOLS\<close>
  bytes; \<^verbatim>\<open>&rxbuf[n]\<close> is the buffer from position \<open>n\<close> on.
\<close>

function slip_show :: "string \<Rightarrow> byte list \<Rightarrow> int \<Rightarrow> int \<Rightarrow> string" where
  "slip_show pfx buf idx n =
     print_hex_line pfx (drop (nat n) buf) (if idx - n > HCOLS then HCOLS else idx - n)
     @ [LF]
     @ (if n + HCOLS < idx then slip_show ''     '' buf idx (n + HCOLS) else [])"
  by pat_completeness auto
termination
  by (relation "measure (\<lambda>(pfx, buf, idx, n). nat (idx - n))") auto

declare slip_show.simps [simp del]

section \<open>The receive path\<close>

text \<open>\<^verbatim>\<open>rxbuf[index++] = c\<close>; a store outside the array is the error \<open>OutOfBounds\<close>.\<close>

definition rxbuf_put :: "state \<Rightarrow> byte \<Rightarrow> error + state" where
  "rxbuf_put s c =
     (if 0 \<le> index s \<and> index s < int (length (rxbuf s))
      then Inr (s\<lparr>rxbuf := (rxbuf s)[nat (index s) := c], index := index s + 1\<rparr>)
      else Inl OutOfBounds)"

text \<open>The inner \<^verbatim>\<open>switch\<close> on the byte read after an escape byte.\<close>

definition unesc :: "byte \<Rightarrow> byte" where
  "unesc c = (if c = SLIP_ESC_END then SLIP_END else if c = SLIP_ESC_ESC then SLIP_ESC else c)"

text \<open>
  \<^verbatim>\<open>case MODE_SLIP\<close>: the \<^verbatim>\<open>switch(buf[i])\<close> of the decoder. Showing the packet reads
  \<^verbatim>\<open>rxbuf[0 .. index - 1]\<close>, so an index beyond the array is an error there too.
\<close>

definition slip_case :: "state \<Rightarrow> byte \<Rightarrow> error + state" where
  "slip_case s c =
     (if c = SLIP_ESC then Inr (s\<lparr>lastc := SLIP_ESC\<rparr>)
      else if c = SLIP_END then
        (if index s > 0 then
           (if flags s \<noteq> 2 \<and> mode s \<noteq> MODE_SLIP_HIDE then
              (if index s \<le> int (length (rxbuf s))
               then Inr (s\<lparr>out := out s @ slip_show ''SLIP:'' (rxbuf s) (index s) 0,
                           lastc := 0, index := 0, flags := 0\<rparr>)
               else Inl OutOfBounds)
            else Inr (s\<lparr>lastc := 0, index := 0, flags := 0\<rparr>))
         else Inr (s\<lparr>flags := (if flags s = 0 then 1 else 0)\<rparr>))
      else
        (case rxbuf_put (if lastc s = SLIP_ESC then s\<lparr>lastc := 0\<rparr> else s)
                        (if lastc s = SLIP_ESC then unesc c else c) of
           Inl e \<Rightarrow> Inl e
         | Inr s' \<Rightarrow>
             Inr (if index s' \<ge> RXBUF_SIZE
                  then s'\<lparr>err := err s' @ ''**** slip overflow'' @ [LF], index := 0, flags := 2\<rparr>
                  else s')))"

text \<open>\<^verbatim>\<open>case MODE_DATE\<close>, which \<^verbatim>\<open>MODE_START_DATE\<close> falls into.\<close>

definition date_case :: "state \<Rightarrow> byte \<Rightarrow> state" where
  "date_case s c =
     (let s' = s\<lparr>out := out s @ [byte_char c]\<rparr>
      in if c = 0x0A then s'\<lparr>mode := MODE_START_DATE\<rparr> else s')"

text \<open>
  The body of \<^verbatim>\<open>for(i = 0; i < n; i++)\<close> for one byte \<open>c = buf[i]\<close>. \<open>ts\<close> is the text the
  clock gives at this moment, as \<^verbatim>\<open>MODE_START_DATE\<close> prints it (the seconds and
  milliseconds with \<^verbatim>\<open>": "\<close>, or the \<^verbatim>\<open>strftime\<close> text with \<^verbatim>\<open>"|"\<close>); no other mode reads it.
\<close>

definition rx_byte :: "string \<Rightarrow> state \<Rightarrow> byte \<Rightarrow> error + state" where
  "rx_byte ts s c =
     (case mode s of
        MODE_START_TEXT \<Rightarrow> Inr (s\<lparr>out := out s @ [byte_char c]\<rparr>)
      | MODE_TEXT \<Rightarrow> Inr (s\<lparr>out := out s @ [byte_char c]\<rparr>)
      | MODE_START_DATE \<Rightarrow> Inr (date_case (s\<lparr>out := out s @ ts, mode := MODE_DATE\<rparr>) c)
      | MODE_DATE \<Rightarrow> Inr (date_case s c)
      | MODE_INT \<Rightarrow>
          (let s' = s\<lparr>out := out s @ dec3 c, index := index s + 1\<rparr>
           in Inr (if index s' \<ge> ICOLS then s'\<lparr>index := 0, out := out s' @ [LF]\<rparr> else s'))
      | MODE_HEX \<Rightarrow>
          (case rxbuf_put s c of
             Inl e \<Rightarrow> Inl e
           | Inr s' \<Rightarrow>
               Inr (if index s' \<ge> HCOLS
                    then s'\<lparr>out := out s' @ print_hex_line [] (rxbuf s') (index s') @ [LF],
                            index := 0\<rparr>
                    else s'))
      | MODE_SLIP_AUTO \<Rightarrow>
          (if flags s = 0 \<and> c \<noteq> SLIP_END then Inr (s\<lparr>out := out s @ [byte_char c]\<rparr>)
           else slip_case s c)
      | MODE_SLIP_HIDE \<Rightarrow>
          (if flags s = 0 \<and> c \<noteq> SLIP_END then Inr (s\<lparr>out := out s @ [byte_char c]\<rparr>)
           else slip_case s c)
      | MODE_SLIP \<Rightarrow> slip_case s c)"

text \<open>
  The loop over the bytes of one \<^verbatim>\<open>read\<close>; \<open>clk k\<close> is the clock's text when byte \<open>k\<close> of
  the chunk is handled.
\<close>

fun rx_loop :: "(nat \<Rightarrow> string) \<Rightarrow> state \<Rightarrow> byte list \<Rightarrow> error + state" where
  "rx_loop clk s [] = Inr s"
| "rx_loop clk s (c # cs) =
     (case rx_byte (clk 0) s c of
        Inl e \<Rightarrow> Inl e
      | Inr s' \<Rightarrow> rx_loop (\<lambda>k. clk (Suc k)) s' cs)"

text \<open>
  "After processing for some output modes": in hex mode the line begun is printed at
  the end of every chunk (and printed again, after a carriage return, when it grows).
\<close>

definition rx_flush :: "state \<Rightarrow> error + state" where
  "rx_flush s =
     (if index s > 0 \<and> mode s = MODE_HEX
      then (if index s \<le> int (length (rxbuf s))
            then Inr (s\<lparr>out := out s @ print_hex_line [] (rxbuf s) (index s)\<rparr>)
            else Inl OutOfBounds)
      else Inr s)"

text \<open>
  One turn of the main loop with the serial line readable: \<open>rd\<close> is what \<^verbatim>\<open>read\<close>
  returned, \<open>None\<close> for a negative result and otherwise the bytes read (at most
  \<^verbatim>\<open>BUFSIZE\<close>, 40).
\<close>

definition rx_chunk :: "(nat \<Rightarrow> string) \<Rightarrow> state \<Rightarrow> byte list option \<Rightarrow> error + state" where
  "rx_chunk clk s rd =
     (case rd of
        None \<Rightarrow> Inl ReadFailed
      | Some bs \<Rightarrow> (case rx_loop clk s bs of Inl e \<Rightarrow> Inl e | Inr s' \<Rightarrow> rx_flush s'))"

section \<open>The transmit path\<close>

text \<open>
  "Write slowly": the bytes of the chunk one by one; \<open>ok k\<close> tells whether the \<^verbatim>\<open>write\<close> of
  byte \<open>k\<close> returned a positive count. The first write that does not ends the program.
\<close>

fun tx_loop :: "(nat \<Rightarrow> bool) \<Rightarrow> byte list \<Rightarrow> error + byte list" where
  "tx_loop ok [] = Inr []"
| "tx_loop ok (b # bs) =
     (if ok 0
      then (case tx_loop (\<lambda>k. ok (Suc k)) bs of Inl e \<Rightarrow> Inl e | Inr ws \<Rightarrow> Inr (b # ws))
      else Inl WriteFailed)"

text \<open>
  One turn of the main loop with standard input readable: the bytes that reach the serial
  line for the chunk \<open>rd\<close> read from standard input (\<open>None\<close> for a failed \<^verbatim>\<open>read\<close>, else
  at most \<^verbatim>\<open>BUFSIZE\<close> = 40 bytes). Nothing is written for \<open>n = 0\<close>. In \<open>MODE_SLIP\<close> the chunk goes
  between two \<open>SLIP_END\<close> bytes; the source does not look at the result of these two writes,
  and they are taken as delivered.
\<close>

definition tx_chunk :: "mode \<Rightarrow> (nat \<Rightarrow> bool) \<Rightarrow> byte list option \<Rightarrow> error + byte list" where
  "tx_chunk m ok rd =
     (case rd of
        None \<Rightarrow> Inl ReadFailed
      | Some bs \<Rightarrow>
          (if length bs > 0
           then (case tx_loop ok bs of
                   Inl e \<Rightarrow> Inl e
                 | Inr ws \<Rightarrow>
                     Inr ((if m = MODE_SLIP then [SLIP_END] else []) @ ws
                          @ (if m = MODE_SLIP then [SLIP_END] else [])))
           else Inr []))"

section \<open>Notions used in the statements\<close>

text \<open>
  A byte reaches the decoder's \<^verbatim>\<open>switch(buf[i])\<close> in \<open>MODE_SLIP\<close> always, and in the
  two other SLIP modes when \<open>flags\<close> is set (or when the byte is \<open>SLIP_END\<close>).
\<close>

definition decoding :: "state \<Rightarrow> bool" where
  "decoding s \<longleftrightarrow>
     mode s = MODE_SLIP \<or> ((mode s = MODE_SLIP_AUTO \<or> mode s = MODE_SLIP_HIDE) \<and> flags s \<noteq> 0)"

text \<open>
  The bytes a stretch of input without \<open>SLIP_END\<close> stands for: every escape byte is left
  out, and the byte after one goes through \<open>unesc\<close>. \<open>p\<close> tells whether the byte before the
  stretch was an escape byte.
\<close>

fun slip_payload :: "bool \<Rightarrow> byte list \<Rightarrow> byte list" where
  "slip_payload p [] = []"
| "slip_payload p (c # cs) =
     (if c = SLIP_ESC then slip_payload True cs
      else (if p then unesc c else c) # slip_payload False cs)"

text \<open>Whether the stretch leaves an escape byte unanswered.\<close>

fun esc_after :: "bool \<Rightarrow> byte list \<Rightarrow> bool" where
  "esc_after p [] = p"
| "esc_after p (c # cs) = esc_after (c = SLIP_ESC) cs"

abbreviation overflow_msg :: string where
  "overflow_msg \<equiv> ''**** slip overflow'' @ [LF]"

text \<open>
  The value at which a mode sets \<^verbatim>\<open>index\<close> back to 0: \<open>HCOLS\<close> and \<open>ICOLS\<close> for the hex and
  decimal lines, the size of \<^verbatim>\<open>rxbuf\<close> for a SLIP packet (the text modes leave it alone).
\<close>

definition index_cap :: "mode \<Rightarrow> int" where
  "index_cap m = (case m of MODE_HEX \<Rightarrow> HCOLS | MODE_INT \<Rightarrow> ICOLS | _ \<Rightarrow> RXBUF_SIZE)"

definition in_bounds :: "state \<Rightarrow> bool" where
  "in_bounds s \<longleftrightarrow>
     length (rxbuf s) = 2048 \<and> 0 \<le> index s \<and> index s < index_cap (mode s)"

text \<open>
  The states of the receive loop for a program started in mode \<open>m\<close>: after any number of
  bytes and of chunk ends, whatever the clock reads.
\<close>

inductive reachable :: "mode \<Rightarrow> state \<Rightarrow> bool" for m :: mode where
  start: "reachable m (fresh m)"
| byte: "reachable m s \<Longrightarrow> rx_byte ts s c = Inr s' \<Longrightarrow> reachable m s'"
| flush: "reachable m s \<Longrightarrow> rx_flush s = Inr s' \<Longrightarrow> reachable m s'"

text \<open>A clock whose text is empty, and a serial line that takes every write: for runs on concrete input.\<close>

definition no_clock :: "nat \<Rightarrow> string" where
  "no_clock k = []"

definition line_up :: "nat \<Rightarrow> bool" where
  "line_up k = True"

section \<open>Lines of the hex dump\<close>

lemma length_hex2 [simp]: "length (hex2 b) = 2"
  by (simp add: hex2_def)

lemma hex_cols_pad:
  "0 \<le> i \<Longrightarrow> i \<le> idx \<Longrightarrow> idx \<le> HCOLS \<Longrightarrow>
   length (hex_cols ob idx i) + length (pad_cols idx) = length (pad_cols i)"
proof (induction ob idx i rule: hex_cols.induct)
  case (1 ob idx i)
  show ?case
  proof (cases "i < idx")
    case True
    with 1 have ih: "length (hex_cols ob idx (i + 1)) + length (pad_cols idx) = length (pad_cols (i + 1))"
      by simp
    from True 1 have "i < HCOLS" by simp
    then show ?thesis
      using ih True by (simp add: hex_cols.simps [of ob idx i] pad_cols.simps [of i])
  next
    case False
    with 1 have "i = idx" by simp
    then show ?thesis by (simp add: hex_cols.simps [of ob idx idx])
  qed
qed

lemma pad_cols_0: "length (pad_cols 0) = 45"
  by code_simp

lemma hex_section_width:
  "0 \<le> idx \<Longrightarrow> idx \<le> HCOLS \<Longrightarrow> length (hex_section pfx ob idx) = length pfx + 48"
  using hex_cols_pad [of 0 idx ob] by (simp add: hex_section_def pad_cols_0)

lemma hex_cols_cong:
  "0 \<le> i \<Longrightarrow> (\<And>j. i \<le> j \<Longrightarrow> j < idx \<Longrightarrow> a ! nat j = b ! nat j) \<Longrightarrow>
   hex_cols a idx i = hex_cols b idx i"
proof (induction a idx i rule: hex_cols.induct)
  case (1 a idx i)
  show ?case
  proof (cases "i < idx")
    case True
    have "hex_cols a idx (i + 1) = hex_cols b idx (i + 1)"
      using 1 True by simp
    moreover have "a ! nat i = b ! nat i"
      using 1(3) [of i] True by simp
    ultimately show ?thesis
      using True by (simp add: hex_cols.simps [of a idx i] hex_cols.simps [of b idx i])
  next
    case False
    then show ?thesis
      by (simp add: hex_cols.simps [of a idx i] hex_cols.simps [of b idx i])
  qed
qed

lemma ascii_cols_cong:
  "0 \<le> i \<Longrightarrow> (\<And>j. i \<le> j \<Longrightarrow> j < idx \<Longrightarrow> a ! nat j = b ! nat j) \<Longrightarrow>
   ascii_cols a idx i = ascii_cols b idx i"
proof (induction a idx i rule: ascii_cols.induct)
  case (1 a idx i)
  show ?case
  proof (cases "i < idx")
    case True
    have "ascii_cols a idx (i + 1) = ascii_cols b idx (i + 1)"
      using 1 True by simp
    moreover have "a ! nat i = b ! nat i"
      using 1(3) [of i] True by simp
    ultimately show ?thesis
      using True by (simp add: ascii_cols.simps [of a idx i] ascii_cols.simps [of b idx i])
  next
    case False
    then show ?thesis
      by (simp add: ascii_cols.simps [of a idx i] ascii_cols.simps [of b idx i])
  qed
qed

lemma print_hex_line_cong:
  assumes "\<And>j. 0 \<le> j \<Longrightarrow> j < idx \<Longrightarrow> a ! nat j = b ! nat j"
  shows "print_hex_line pfx a idx = print_hex_line pfx b idx"
proof -
  have "hex_cols a idx 0 = hex_cols b idx 0"
    by (rule hex_cols_cong) (use assms in auto)
  moreover have "ascii_cols a idx 0 = ascii_cols b idx 0"
    by (rule ascii_cols_cong) (use assms in auto)
  ultimately show ?thesis
    by (simp add: print_hex_line_def hex_section_def)
qed

lemma slip_show_cong:
  "0 \<le> n \<Longrightarrow> nat idx \<le> length a \<Longrightarrow> nat idx \<le> length b \<Longrightarrow>
   take (nat idx) a = take (nat idx) b \<Longrightarrow>
   slip_show pfx a idx n = slip_show pfx b idx n"
proof (induction pfx a idx n rule: slip_show.induct)
  case (1 pfx a idx n)
  let ?k = "if idx - n > HCOLS then HCOLS else idx - n"
  have nth_eq: "a ! m = b ! m" if "m < nat idx" for m
  proof -
    have "a ! m = take (nat idx) a ! m" using that by simp
    also have "\<dots> = take (nat idx) b ! m" using 1 by simp
    also have "\<dots> = b ! m" using that by simp
    finally show ?thesis .
  qed
  have line: "print_hex_line pfx (drop (nat n) a) ?k = print_hex_line pfx (drop (nat n) b) ?k"
  proof (rule print_hex_line_cong)
    fix j :: int
    assume j: "0 \<le> j" "j < ?k"
    then have lt: "nat n + nat j < nat idx"
      using 1(2) by (auto split: if_splits)
    then have "drop (nat n) a ! nat j = a ! (nat n + nat j)"
      using 1(3) by (intro nth_drop) simp
    moreover have "drop (nat n) b ! nat j = b ! (nat n + nat j)"
      using lt 1(4) by (intro nth_drop) simp
    ultimately show "drop (nat n) a ! nat j = drop (nat n) b ! nat j"
      using nth_eq [OF lt] by simp
  qed
  have rest: "slip_show ''     '' a idx (n + HCOLS) = slip_show ''     '' b idx (n + HCOLS)"
    if "n + HCOLS < idx"
    using 1 that by simp
  show ?case
    using line rest
    by (simp add: slip_show.simps [of pfx a idx n] slip_show.simps [of pfx b idx n])
qed

section \<open>Steps of the decoder\<close>

lemma rx_byte_slip:
  "decoding s \<or> c = SLIP_END \<Longrightarrow> mode s \<in> {MODE_SLIP, MODE_SLIP_AUTO, MODE_SLIP_HIDE} \<Longrightarrow> rx_byte ts s c = slip_case s c"
  by (auto simp: rx_byte_def decoding_def)

lemma rx_byte_esc:
  "decoding s \<Longrightarrow> rx_byte ts s SLIP_ESC = Inr (s\<lparr>lastc := SLIP_ESC\<rparr>)"
  by (auto simp: rx_byte_def decoding_def slip_case_def)

lemma rx_byte_data:
  assumes "decoding s" "c \<noteq> SLIP_END" "c \<noteq> SLIP_ESC"
    and "0 \<le> index s" "index s < int (length (rxbuf s))"
  shows "rx_byte ts s c =
     Inr (if index s + 1 \<ge> RXBUF_SIZE
          then s\<lparr>lastc := (if lastc s = SLIP_ESC then 0 else lastc s),
                 rxbuf := (rxbuf s)[nat (index s) := (if lastc s = SLIP_ESC then unesc c else c)],
                 err := err s @ overflow_msg, index := 0, flags := 2\<rparr>
          else s\<lparr>lastc := (if lastc s = SLIP_ESC then 0 else lastc s),
                 rxbuf := (rxbuf s)[nat (index s) := (if lastc s = SLIP_ESC then unesc c else c)],
                 index := index s + 1\<rparr>)"
  using assms by (auto simp: rx_byte_def decoding_def slip_case_def rxbuf_put_def)

lemma concat_replicate_Suc_nat:
  "0 \<le> k \<Longrightarrow> concat (replicate (nat (1 + k)) m) = m @ concat (replicate (nat k) m)"
  by (simp add: nat_add_distrib)

lemma rx_payload:
  assumes "decoding s" "length (rxbuf s) = 2048" "0 \<le> index s" "index s < 2048"
    and "SLIP_END \<notin> set bs" "lastc s = (if p then SLIP_ESC else 0)"
  shows "\<exists>s'. rx_loop clk s bs = Inr s' \<and> mode s' = mode s \<and> out s' = out s
     \<and> length (rxbuf s') = 2048
     \<and> lastc s' = (if esc_after p bs then SLIP_ESC else 0)
     \<and> index s' = (index s + int (length (slip_payload p bs))) mod 2048
     \<and> flags s' = (if index s + int (length (slip_payload p bs)) \<ge> 2048 then 2 else flags s)
     \<and> err s' = err s @ concat (replicate (nat ((index s + int (length (slip_payload p bs))) div 2048)) overflow_msg)
     \<and> (index s + int (length (slip_payload p bs)) < 2048 \<longrightarrow>
          take (nat (index s')) (rxbuf s') = take (nat (index s)) (rxbuf s) @ slip_payload p bs)"
  using assms
proof (induction bs arbitrary: s p clk)
  case Nil
  then show ?case by simp
next
  case (Cons c cs)
  show ?case
  proof (cases "c = SLIP_ESC")
    case True
    let ?s1 = "s\<lparr>lastc := SLIP_ESC\<rparr>"
    have step: "rx_byte (clk 0) s c = Inr ?s1"
      using True Cons.prems(1) by (simp add: rx_byte_esc)
    have "decoding ?s1" using Cons.prems(1) by (simp add: decoding_def)
    then have "\<exists>s'. rx_loop (\<lambda>k. clk (Suc k)) ?s1 cs = Inr s' \<and> mode s' = mode s \<and> out s' = out s
      \<and> length (rxbuf s') = 2048 \<and> lastc s' = (if esc_after True cs then SLIP_ESC else 0)
      \<and> index s' = (index s + int (length (slip_payload True cs))) mod 2048
      \<and> flags s' = (if index s + int (length (slip_payload True cs)) \<ge> 2048 then 2 else flags s)
      \<and> err s' = err s @ concat (replicate (nat ((index s + int (length (slip_payload True cs))) div 2048)) overflow_msg)
      \<and> (index s + int (length (slip_payload True cs)) < 2048 \<longrightarrow>
          take (nat (index s')) (rxbuf s') = take (nat (index s)) (rxbuf s) @ slip_payload True cs)"
      using Cons.IH [of ?s1 True "\<lambda>k. clk (Suc k)"] Cons.prems
      by (simp cong: if_cong split del: if_split)
    then obtain s' where s': "rx_loop (\<lambda>k. clk (Suc k)) ?s1 cs = Inr s'" "mode s' = mode s" "out s' = out s"
      "length (rxbuf s') = 2048" "lastc s' = (if esc_after True cs then SLIP_ESC else 0)"
      "index s' = (index s + int (length (slip_payload True cs))) mod 2048"
      "flags s' = (if index s + int (length (slip_payload True cs)) \<ge> 2048 then 2 else flags s)"
      "err s' = err s @ concat (replicate (nat ((index s + int (length (slip_payload True cs))) div 2048)) overflow_msg)"
      "index s + int (length (slip_payload True cs)) < 2048 \<longrightarrow>
          take (nat (index s')) (rxbuf s') = take (nat (index s)) (rxbuf s) @ slip_payload True cs"
      by blast
    show ?thesis
      using step s' True by (intro exI [of _ s']) simp
  next
    case False
    define d where "d = (if lastc s = SLIP_ESC then unesc c else c)"
    have d: "d = (if p then unesc c else c)"
      using Cons.prems(6) by (simp add: d_def)
    define s1 where "s1 = (if index s + 1 \<ge> RXBUF_SIZE
          then s\<lparr>lastc := (if lastc s = SLIP_ESC then 0 else lastc s),
                 rxbuf := (rxbuf s)[nat (index s) := d],
                 err := err s @ overflow_msg, index := 0, flags := 2\<rparr>
          else s\<lparr>lastc := (if lastc s = SLIP_ESC then 0 else lastc s),
                 rxbuf := (rxbuf s)[nat (index s) := d],
                 index := index s + 1\<rparr>)"
    have cE: "c \<noteq> SLIP_END" using Cons.prems(5) by auto
    have step: "rx_byte (clk 0) s c = Inr s1"
      unfolding s1_def d_def
      by (rule rx_byte_data) (use Cons.prems False cE in auto)
    have s1_mode: "mode s1 = mode s" and s1_out: "out s1 = out s"
      and s1_len: "length (rxbuf s1) = 2048" and s1_lastc: "lastc s1 = 0"
      and s1_buf: "rxbuf s1 = (rxbuf s)[nat (index s) := d]"
      using Cons.prems by (auto simp: s1_def)
    have s1_index: "index s1 = (if index s + 1 \<ge> 2048 then 0 else index s + 1)"
      and s1_flags: "flags s1 = (if index s + 1 \<ge> 2048 then 2 else flags s)"
      and s1_err: "err s1 = (if index s + 1 \<ge> 2048 then err s @ overflow_msg else err s)"
      by (auto simp: s1_def)
    have dec1: "decoding s1"
      using Cons.prems(1) by (auto simp: decoding_def s1_def)
    have idx1: "0 \<le> index s1" "index s1 < 2048"
      using Cons.prems(3,4) by (auto simp: s1_index)
    let ?L = "int (length (slip_payload False cs))"
    have "SLIP_END \<notin> set cs" "lastc s1 = (if False then SLIP_ESC else 0)"
      using Cons.prems(5) s1_lastc by auto
    from Cons.IH [OF dec1 s1_len idx1 this, of "\<lambda>k. clk (Suc k)"]
    obtain s' where s': "rx_loop (\<lambda>k. clk (Suc k)) s1 cs = Inr s'" "mode s' = mode s1" "out s' = out s1"
      "length (rxbuf s') = 2048" "lastc s' = (if esc_after False cs then SLIP_ESC else 0)"
      "index s' = (index s1 + ?L) mod 2048"
      "flags s' = (if index s1 + ?L \<ge> 2048 then 2 else flags s1)"
      "err s' = err s1 @ concat (replicate (nat ((index s1 + ?L) div 2048)) overflow_msg)"
      "index s1 + ?L < 2048 \<longrightarrow>
          take (nat (index s')) (rxbuf s') = take (nat (index s1)) (rxbuf s1) @ slip_payload False cs"
      by blast
    have pl: "slip_payload p (c # cs) = d # slip_payload False cs"
      using False by (simp add: d)
    have ea: "esc_after p (c # cs) = esc_after False cs"
      using False by simp
    have loop: "rx_loop clk s (c # cs) = Inr s'"
      using step s'(1) by simp
    have i: "index s' = (index s + int (length (d # slip_payload False cs))) mod 2048"
    proof (cases "index s + 1 \<ge> 2048")
      case True
      then have "index s = 2047" using Cons.prems(4) by simp
      then show ?thesis using s'(6) s1_index by simp
    next
      case False
      then show ?thesis using s'(6) s1_index by (simp add: ac_simps)
    qed
    have f: "flags s' = (if index s + int (length (d # slip_payload False cs)) \<ge> 2048 then 2 else flags s)"
      using s'(7) s1_index s1_flags by auto
    have e: "err s' = err s @ concat (replicate (nat ((index s + int (length (d # slip_payload False cs))) div 2048)) overflow_msg)"
    proof (cases "index s + 1 \<ge> 2048")
      case True
      then have eq: "index s = 2047" using Cons.prems(4) by simp
      have "(2048 + ?L) div 2048 = 1 + ?L div 2048" by simp
      then have "concat (replicate (nat ((2048 + ?L) div 2048)) overflow_msg)
          = overflow_msg @ concat (replicate (nat (?L div 2048)) overflow_msg)"
        using concat_replicate_Suc_nat [of "?L div 2048" overflow_msg]
        by (simp add: pos_imp_zdiv_nonneg_iff)
      then show ?thesis
        using s'(8) s1_index s1_err eq by simp
    next
      case False
      then show ?thesis using s'(8) s1_index s1_err by (simp add: ac_simps)
    qed
    have b: "take (nat (index s')) (rxbuf s') = take (nat (index s)) (rxbuf s) @ d # slip_payload False cs"
      if lt: "index s + int (length (d # slip_payload False cs)) < 2048"
    proof -
      from lt have no: "\<not> index s + 1 \<ge> 2048" by simp
      then have i1: "index s1 = index s + 1" by (simp add: s1_index)
      have "index s1 + ?L < 2048" using lt i1 by simp
      with s'(9) have "take (nat (index s')) (rxbuf s') = take (nat (index s1)) (rxbuf s1) @ slip_payload False cs"
        by simp
      moreover have "take (nat (index s1)) (rxbuf s1) = take (nat (index s)) (rxbuf s) @ [d]"
      proof -
        have n: "nat (index s1) = Suc (nat (index s))"
          using i1 Cons.prems(3) by simp
        have l: "nat (index s) < length (rxbuf s)"
          using Cons.prems(2,3,4) by simp
        show ?thesis
          using l by (simp add: n s1_buf take_Suc_conv_app_nth)
      qed
      ultimately show ?thesis by simp
    qed
    have m: "mode s' = mode s" and ou: "out s' = out s"
      using s'(2,3) s1_mode s1_out by simp_all
    show ?thesis
      unfolding pl ea
      using loop m ou s'(4,5) i f e b
      by (intro exI [of _ s']) blast
  qed
qed

lemma rx_loop_append:
  "rx_loop clk s (xs @ ys) =
     (case rx_loop clk s xs of Inl e \<Rightarrow> Inl e | Inr s1 \<Rightarrow> rx_loop (\<lambda>k. clk (length xs + k)) s1 ys)"
  by (induction xs arbitrary: clk s) (simp_all split: sum.splits)

lemma rx_byte_end_empty:
  assumes "mode s \<in> {MODE_SLIP, MODE_SLIP_AUTO, MODE_SLIP_HIDE}" "index s \<le> 0"
  shows "rx_byte ts s SLIP_END = Inr (s\<lparr>flags := (if flags s = 0 then 1 else 0)\<rparr>)"
  using assms by (auto simp: rx_byte_def slip_case_def)

lemma rx_byte_end_close:
  assumes "mode s \<in> {MODE_SLIP, MODE_SLIP_AUTO, MODE_SLIP_HIDE}"
    and "0 < index s" "index s \<le> int (length (rxbuf s))"
  shows "rx_byte ts s SLIP_END =
     Inr (s\<lparr>out := out s @ (if flags s \<noteq> 2 \<and> mode s \<noteq> MODE_SLIP_HIDE
                              then slip_show ''SLIP:'' (rxbuf s) (index s) 0 else []),
            lastc := 0, index := 0, flags := 0\<rparr>)"
  using assms by (auto simp: rx_byte_def slip_case_def)

lemma rx_frame_body:
  assumes m: "mode s \<in> {MODE_SLIP, MODE_SLIP_AUTO, MODE_SLIP_HIDE}"
    and s: "length (rxbuf s) = 2048" "index s = 0" "flags s = 0"
      "lastc s = (if p then SLIP_ESC else 0)"
    and bs: "SLIP_END \<notin> set bs"
  shows "\<exists>s'. rx_loop clk s (SLIP_END # bs) = Inr s' \<and> mode s' = mode s \<and> out s' = out s
     \<and> length (rxbuf s') = 2048
     \<and> lastc s' = (if esc_after p bs then SLIP_ESC else 0)
     \<and> index s' = int (length (slip_payload p bs)) mod 2048
     \<and> flags s' = (if int (length (slip_payload p bs)) \<ge> 2048 then 2 else 1)
     \<and> err s' = err s @ concat (replicate (length (slip_payload p bs) div 2048) overflow_msg)
     \<and> (length (slip_payload p bs) < 2048 \<longrightarrow>
          take (length (slip_payload p bs)) (rxbuf s') = slip_payload p bs)"
proof -
  let ?s1 = "s\<lparr>flags := 1\<rparr>"
  let ?D = "slip_payload p bs"
  have step: "rx_byte (clk 0) s SLIP_END = Inr ?s1"
    using rx_byte_end_empty [OF m, of "clk 0"] s by simp
  have dec: "decoding ?s1" using m by (auto simp: decoding_def)
  have pre: "length (rxbuf ?s1) = 2048" "0 \<le> index ?s1" "index ?s1 < 2048"
    "SLIP_END \<notin> set bs" "lastc ?s1 = (if p then SLIP_ESC else 0)"
    using s bs by simp_all
  from rx_payload [OF dec pre, of "\<lambda>k. clk (Suc k)"]
  obtain s' where s': "rx_loop (\<lambda>k. clk (Suc k)) ?s1 bs = Inr s'" "mode s' = mode ?s1" "out s' = out ?s1"
     "length (rxbuf s') = 2048"
     "lastc s' = (if esc_after p bs then SLIP_ESC else 0)"
     "index s' = (index ?s1 + int (length ?D)) mod 2048"
     "flags s' = (if index ?s1 + int (length ?D) \<ge> 2048 then 2 else flags ?s1)"
     "err s' = err ?s1 @ concat (replicate (nat ((index ?s1 + int (length ?D)) div 2048)) overflow_msg)"
     "index ?s1 + int (length ?D) < 2048 \<longrightarrow>
          take (nat (index s')) (rxbuf s') = take (nat (index ?s1)) (rxbuf ?s1) @ ?D"
    by blast
  have d: "nat (int (length ?D) div 2048) = length ?D div 2048"
    by (simp add: zdiv_int [symmetric] del: zdiv_int)
  have "take (length ?D) (rxbuf s') = ?D" if "length ?D < 2048"
    using s'(6,9) that s by simp
  then show ?thesis
    using step s'(1-8) s d by (intro exI [of _ s']) simp
qed

lemma rx_frame:
  assumes m: "mode s \<in> {MODE_SLIP, MODE_SLIP_AUTO, MODE_SLIP_HIDE}"
    and s: "length (rxbuf s) = 2048" "index s = 0" "flags s = 0"
      "lastc s = (if p then SLIP_ESC else 0)"
    and bs: "SLIP_END \<notin> set bs"
    and D: "slip_payload p bs \<noteq> []" "length (slip_payload p bs) < 2048"
  shows "\<exists>s'. rx_loop clk s (SLIP_END # bs @ [SLIP_END]) = Inr s' \<and> mode s' = mode s
     \<and> index s' = 0 \<and> flags s' = 0 \<and> lastc s' = 0 \<and> err s' = err s
     \<and> length (rxbuf s') = 2048
     \<and> take (length (slip_payload p bs)) (rxbuf s') = slip_payload p bs
     \<and> out s' = out s @ (if mode s = MODE_SLIP_HIDE then []
                          else slip_show ''SLIP:'' (slip_payload p bs) (int (length (slip_payload p bs))) 0)"
proof -
  let ?D = "slip_payload p bs"
  from rx_frame_body [OF m s bs, of clk]
  obtain s1 where s1: "rx_loop clk s (SLIP_END # bs) = Inr s1" "mode s1 = mode s" "out s1 = out s"
     "length (rxbuf s1) = 2048"
     "lastc s1 = (if esc_after p bs then SLIP_ESC else 0)"
     "index s1 = int (length ?D) mod 2048"
     "flags s1 = (if int (length ?D) \<ge> 2048 then 2 else 1)"
     "err s1 = err s @ concat (replicate (length ?D div 2048) overflow_msg)"
     "length ?D < 2048 \<longrightarrow> take (length ?D) (rxbuf s1) = ?D"
    by blast
  have i1: "index s1 = int (length ?D)" and f1: "flags s1 = 1" and e1: "err s1 = err s"
    and b1: "take (length ?D) (rxbuf s1) = ?D"
    using s1(6-9) D by simp_all
  have pos: "0 < index s1" using D i1 by simp
  have le: "index s1 \<le> int (length (rxbuf s1))" using i1 D s1(4) by simp
  have m1: "mode s1 \<in> {MODE_SLIP, MODE_SLIP_AUTO, MODE_SLIP_HIDE}" using m s1(2) by simp
  define s' where "s' = s1\<lparr>out := out s1 @ (if flags s1 \<noteq> 2 \<and> mode s1 \<noteq> MODE_SLIP_HIDE
                              then slip_show ''SLIP:'' (rxbuf s1) (index s1) 0 else []),
            lastc := 0, index := 0, flags := 0\<rparr>"
  have close: "rx_byte ts s1 SLIP_END = Inr s'" for ts
    unfolding s'_def by (rule rx_byte_end_close [OF m1 pos le])
  have "SLIP_END # bs @ [SLIP_END] = (SLIP_END # bs) @ [SLIP_END]" by simp
  then have run: "rx_loop clk s (SLIP_END # bs @ [SLIP_END]) = Inr s'"
    using s1(1) close by (simp only: rx_loop_append) simp
  have show_eq: "slip_show ''SLIP:'' (rxbuf s1) (index s1) 0 = slip_show ''SLIP:'' ?D (int (length ?D)) 0"
    unfolding i1
    by (rule slip_show_cong) (use s1(4) D b1 in simp_all)
  have "out s' = out s @ (if mode s = MODE_SLIP_HIDE then []
                          else slip_show ''SLIP:'' ?D (int (length ?D)) 0)"
    using show_eq f1 s1(2,3) by (simp add: s'_def)
  moreover have "mode s' = mode s" "index s' = 0" "flags s' = 0" "lastc s' = 0" "err s' = err s"
    "length (rxbuf s') = 2048" "take (length ?D) (rxbuf s') = ?D"
    using s1(2,4) e1 b1 by (simp_all add: s'_def)
  ultimately show ?thesis
    using run by blast
qed

lemma rx_frame_overflow:
  assumes m: "mode s \<in> {MODE_SLIP, MODE_SLIP_AUTO, MODE_SLIP_HIDE}"
    and s: "length (rxbuf s) = 2048" "index s = 0" "flags s = 0"
      "lastc s = (if p then SLIP_ESC else 0)"
    and bs: "SLIP_END \<notin> set bs"
    and D: "2048 \<le> length (slip_payload p bs)"
  shows "\<exists>s'. rx_loop clk s (SLIP_END # bs @ [SLIP_END]) = Inr s' \<and> mode s' = mode s
     \<and> index s' = 0 \<and> flags s' = 0
     \<and> lastc s' = (if length (slip_payload p bs) mod 2048 = 0 \<and> esc_after p bs then SLIP_ESC else 0)
     \<and> err s' = err s @ concat (replicate (length (slip_payload p bs) div 2048) overflow_msg)
     \<and> length (rxbuf s') = 2048
     \<and> out s' = out s"
proof -
  let ?D = "slip_payload p bs"
  from rx_frame_body [OF m s bs, of clk]
  obtain s1 where s1: "rx_loop clk s (SLIP_END # bs) = Inr s1" "mode s1 = mode s" "out s1 = out s"
     "length (rxbuf s1) = 2048"
     "lastc s1 = (if esc_after p bs then SLIP_ESC else 0)"
     "index s1 = int (length ?D) mod 2048"
     "flags s1 = (if int (length ?D) \<ge> 2048 then 2 else 1)"
     "err s1 = err s @ concat (replicate (length ?D div 2048) overflow_msg)"
     "length ?D < 2048 \<longrightarrow> take (length ?D) (rxbuf s1) = ?D"
    by blast
  have f1: "flags s1 = 2" using s1(7) D by simp
  have i1: "index s1 = int (length ?D mod 2048)" using s1(6) by (simp add: zmod_int)
  have m1: "mode s1 \<in> {MODE_SLIP, MODE_SLIP_AUTO, MODE_SLIP_HIDE}" using m s1(2) by simp
  have split: "SLIP_END # bs @ [SLIP_END] = (SLIP_END # bs) @ [SLIP_END]" by simp
  show ?thesis
  proof (cases "length ?D mod 2048 = 0")
    case True
    then have "index s1 \<le> 0" using i1 by simp
    from rx_byte_end_empty [OF m1 this]
    have close: "rx_byte ts s1 SLIP_END = Inr (s1\<lparr>flags := 0\<rparr>)" for ts
      using f1 by simp
    have run: "rx_loop clk s (SLIP_END # bs @ [SLIP_END]) = Inr (s1\<lparr>flags := 0\<rparr>)"
      unfolding split using s1(1) close by (simp only: rx_loop_append) simp
    show ?thesis
      using run s1(2-5,8) i1 True by (intro exI [of _ "s1\<lparr>flags := 0\<rparr>"]) simp
  next
    case False
    then have pos: "0 < index s1" using i1 by simp
    have "length ?D mod 2048 < 2048" by simp
    then have le: "index s1 \<le> int (length (rxbuf s1))" using i1 s1(4) by simp
    from rx_byte_end_close [OF m1 pos le]
    have close: "rx_byte ts s1 SLIP_END = Inr (s1\<lparr>lastc := 0, index := 0, flags := 0\<rparr>)" for ts
      using f1 by simp
    have run: "rx_loop clk s (SLIP_END # bs @ [SLIP_END]) = Inr (s1\<lparr>lastc := 0, index := 0, flags := 0\<rparr>)"
      unfolding split using s1(1) close by (simp only: rx_loop_append) simp
    show ?thesis
      using run s1(2-5,8) False by (intro exI [of _ "s1\<lparr>lastc := 0, index := 0, flags := 0\<rparr>"]) simp
  qed
qed

lemma tx_loop_ok: "(\<And>k. k < length bs \<Longrightarrow> ok k) \<Longrightarrow> tx_loop ok bs = Inr bs"
proof (induction bs arbitrary: ok)
  case Nil
  then show ?case by simp
next
  case (Cons b bs)
  have "ok 0" using Cons.prems [of 0] by simp
  moreover have "tx_loop (\<lambda>k. ok (Suc k)) bs = Inr bs"
    by (rule Cons.IH) (use Cons.prems in auto)
  ultimately show ?case by simp
qed

lemma tx_chunk_slip:
  assumes "bs \<noteq> []" "\<And>k. k < length bs \<Longrightarrow> ok k"
  shows "tx_chunk MODE_SLIP ok (Some bs) = Inr (SLIP_END # bs @ [SLIP_END])"
  using assms(1) tx_loop_ok [of bs ok, OF assms(2)] by (simp add: tx_chunk_def)

lemma slip_payload_plain: "SLIP_ESC \<notin> set bs \<Longrightarrow> slip_payload False bs = bs"
  by (induction bs) auto

lemma length_slip_payload: "length (slip_payload p bs) \<le> length bs"
  by (induction bs arbitrary: p) (auto simp: le_SucI)

lemma length_slip_payload_esc:
  "SLIP_ESC \<in> set bs \<Longrightarrow> length (slip_payload p bs) < length bs"
proof (induction bs arbitrary: p)
  case Nil
  then show ?case by simp
next
  case (Cons c cs)
  show ?case
  proof (cases "c = SLIP_ESC")
    case True
    then show ?thesis
      using length_slip_payload [of True cs] by (simp add: le_imp_less_Suc)
  next
    case False
    then show ?thesis using Cons by auto
  qed
qed

lemma esc_after_last: "esc_after p bs = (if bs = [] then p else last bs = SLIP_ESC)"
  by (induction bs arbitrary: p) auto

lemma fresh_simps [simp]:
  "mode (fresh m) = m" "index (fresh m) = 0" "flags (fresh m) = 0" "lastc (fresh m) = 0"
  "length (rxbuf (fresh m)) = 2048" "out (fresh m) = []" "err (fresh m) = []"
  by (simp_all add: fresh_def)

lemma slip_payload_replicate [simp]:
  "c \<noteq> SLIP_ESC \<Longrightarrow> slip_payload False (replicate n c) = replicate n c"
  by (rule slip_payload_plain) simp

lemma in_bounds_fresh: "in_bounds (fresh m)"
  by (cases m) (simp_all add: in_bounds_def index_cap_def)

lemma rx_byte_store:
  assumes "in_bounds s"
  shows "\<exists>s'. rx_byte ts s c = Inr s' \<and> in_bounds s'
     \<and> index_cap (mode s') = index_cap (mode s)
     \<and> (if mode s = MODE_HEX \<or> (decoding s \<and> c \<noteq> SLIP_END \<and> c \<noteq> SLIP_ESC)
         then rxbuf s' = (rxbuf s)[nat (index s) :=
                (if mode s \<noteq> MODE_HEX \<and> lastc s = SLIP_ESC then unesc c else c)]
              \<and> index s' = (if index s + 1 \<ge> index_cap (mode s) then 0 else index s + 1)
         else rxbuf s' = rxbuf s)"
proof (cases "mode s")
  case MODE_START_DATE
  then show ?thesis
    using assms by (simp add: rx_byte_def date_case_def Let_def in_bounds_def index_cap_def decoding_def)
next
  case MODE_DATE
  then show ?thesis
    using assms by (simp add: rx_byte_def date_case_def Let_def in_bounds_def index_cap_def decoding_def)
next
  case MODE_START_TEXT
  then show ?thesis
    using assms by (simp add: rx_byte_def in_bounds_def index_cap_def decoding_def)
next
  case MODE_TEXT
  then show ?thesis
    using assms by (simp add: rx_byte_def in_bounds_def index_cap_def decoding_def)
next
  case MODE_INT
  then show ?thesis
    using assms by (simp add: rx_byte_def Let_def in_bounds_def index_cap_def decoding_def)
next
  case MODE_HEX
  then show ?thesis
    using assms by (simp add: rx_byte_def rxbuf_put_def in_bounds_def index_cap_def decoding_def)
next
  case MODE_SLIP_AUTO
  then show ?thesis
    using assms
    by (simp add: rx_byte_def slip_case_def rxbuf_put_def in_bounds_def index_cap_def decoding_def)
next
  case MODE_SLIP
  then show ?thesis
    using assms
    by (simp add: rx_byte_def slip_case_def rxbuf_put_def in_bounds_def index_cap_def decoding_def)
next
  case MODE_SLIP_HIDE
  then show ?thesis
    using assms
    by (simp add: rx_byte_def slip_case_def rxbuf_put_def in_bounds_def index_cap_def decoding_def)
qed

lemma rx_flush_keeps:
  assumes "in_bounds s"
  shows "\<exists>s'. rx_flush s = Inr s' \<and> in_bounds s' \<and> rxbuf s' = rxbuf s \<and> index s' = index s"
  using assms by (cases "mode s") (simp_all add: rx_flush_def in_bounds_def index_cap_def)

lemma reachable_in_bounds: "reachable m s \<Longrightarrow> in_bounds s"
proof (induction rule: reachable.induct)
  case start
  show ?case by (rule in_bounds_fresh)
next
  case (byte s ts c s')
  then show ?case using rx_byte_store [of s ts c] by auto
next
  case (flush s s')
  then show ?case using rx_flush_keeps [of s] by auto
qed

lemma rx_byte_mode:
  "mode s \<in> {MODE_SLIP, MODE_SLIP_AUTO, MODE_SLIP_HIDE} \<Longrightarrow> rx_byte ts s c = Inr s' \<Longrightarrow> mode s' = mode s"
  by (auto simp: rx_byte_def slip_case_def rxbuf_put_def split: if_splits)

lemma rx_loop_in_bounds:
  assumes "in_bounds s" "mode s \<in> {MODE_SLIP, MODE_SLIP_AUTO, MODE_SLIP_HIDE}"
  shows "\<exists>s'. rx_loop clk s bs = Inr s' \<and> in_bounds s' \<and> mode s' = mode s"
  using assms
proof (induction bs arbitrary: s clk)
  case Nil
  then show ?case by simp
next
  case (Cons c cs)
  from rx_byte_store [OF Cons.prems(1), of "clk 0" c]
  obtain s1 where s1: "rx_byte (clk 0) s c = Inr s1" "in_bounds s1" by blast
  have m1: "mode s1 = mode s" using rx_byte_mode [OF Cons.prems(2) s1(1)] .
  then have "mode s1 \<in> {MODE_SLIP, MODE_SLIP_AUTO, MODE_SLIP_HIDE}" using Cons.prems(2) by simp
  from Cons.IH [OF s1(2) this, of "\<lambda>k. clk (Suc k)"]
  show ?case using s1(1) m1 by auto
qed

lemma rx_loop_pass:
  assumes "mode s = MODE_SLIP_AUTO \<or> mode s = MODE_SLIP_HIDE" "flags s = 0" "SLIP_END \<notin> set bs"
  shows "rx_loop clk s bs = Inr (s\<lparr>out := out s @ map byte_char bs\<rparr>)"
  using assms
proof (induction bs arbitrary: s clk)
  case Nil
  then show ?case by simp
next
  case (Cons c cs)
  let ?s1 = "s\<lparr>out := out s @ [byte_char c]\<rparr>"
  have step: "rx_byte (clk 0) s c = Inr ?s1"
    using Cons.prems by (auto simp: rx_byte_def)
  have "rx_loop (\<lambda>k. clk (Suc k)) ?s1 cs = Inr (?s1\<lparr>out := out ?s1 @ map byte_char cs\<rparr>)"
    by (rule Cons.IH) (use Cons.prems in auto)
  then show ?case using step by simp
qed

lemma slip_payload_append:
  "slip_payload p (xs @ ys) = slip_payload p xs @ slip_payload (esc_after p xs) ys"
  by (induction xs arbitrary: p) auto

lemma lastc_after_byte:
  assumes "mode s \<in> {MODE_SLIP, MODE_SLIP_AUTO, MODE_SLIP_HIDE}" "decoding s \<or> c = SLIP_END"
    and "lastc s = 0 \<or> lastc s = SLIP_ESC" "rx_byte ts s c = Inr s'"
    and "c \<noteq> SLIP_END \<or> 0 < index s"
  shows "lastc s' = (if c = SLIP_ESC then SLIP_ESC else 0)"
  using assms
  by (auto simp: rx_byte_def decoding_def slip_case_def rxbuf_put_def split: if_splits)

lemma rx_chunk_slip:
  "mode s \<in> {MODE_SLIP, MODE_SLIP_AUTO, MODE_SLIP_HIDE} \<Longrightarrow> rx_chunk clk s (Some bs) = rx_loop clk s bs"
proof -
  assume m: "mode s \<in> {MODE_SLIP, MODE_SLIP_AUTO, MODE_SLIP_HIDE}"
  have keep: "rx_loop clk s bs = Inr s' \<Longrightarrow> mode s' = mode s" for s'
    using m
  proof (induction bs arbitrary: s clk)
    case Nil
    then show ?case by simp
  next
    case (Cons c cs)
    then obtain s1 where s1: "rx_byte (clk 0) s c = Inr s1" "rx_loop (\<lambda>k. clk (Suc k)) s1 cs = Inr s'"
      by (auto split: sum.splits)
    have "mode s1 = mode s" using rx_byte_mode [OF Cons.prems(2) s1(1)] .
    with Cons.IH [OF s1(2)] Cons.prems(2) show ?case by simp
  qed
  show ?thesis
  proof (cases "rx_loop clk s bs")
    case (Inl e)
    then show ?thesis by (simp add: rx_chunk_def)
  next
    case (Inr s')
    with keep [OF Inr] m show ?thesis by (auto simp: rx_chunk_def rx_flush_def)
  qed
qed

lemma rx_byte_out_prefix: "rx_byte ts s c = Inr s' \<Longrightarrow> prefix (out s) (out s')"
  by (cases "mode s")
    (auto simp: rx_byte_def slip_case_def rxbuf_put_def date_case_def Let_def split: if_splits)

lemma rx_loop_out_prefix: "rx_loop clk s bs = Inr s' \<Longrightarrow> prefix (out s) (out s')"
proof (induction bs arbitrary: s clk)
  case Nil
  then show ?case by simp
next
  case (Cons c cs)
  then obtain s1 where s1: "rx_byte (clk 0) s c = Inr s1" "rx_loop (\<lambda>k. clk (Suc k)) s1 cs = Inr s'"
    by (auto split: sum.splits)
  from rx_byte_out_prefix [OF s1(1)] Cons.IH [OF s1(2)]
  show ?case by (rule prefix_order.trans)
qed

section \<open>The claims about the hex dump\<close>

text \<open>
  Claim C7, as the program has it. In hex mode the three bytes 41 42 43, when their chunk
  ends, are printed as a carriage return, a space and the hex pairs \<open>414243\<close> with no space
  between them (a space comes before every fourth pair only), then spaces up to the full
  width and the characters \<open>ABC\<close>. For every prefix and every number of bytes from 0 to 20,
  \<^verbatim>\<open>print_hex_line\<close> prints the same number of columns before the characters: 48 and the
  length of the prefix.
\<close>

theorem hex_line_width:
  assumes "0 \<le> idx" "idx \<le> HCOLS"
  shows "map_sum id out (rx_chunk clk (fresh MODE_HEX) (Some [0x41, 0x42, 0x43]))
       = Inr (CR # '' 414243'' @ replicate 40 (CHR '' '') @ ''ABC'')
     \<and> print_hex_line pfx outbuf idx = hex_section pfx outbuf idx @ ascii_cols outbuf idx 0
     \<and> length (hex_section pfx outbuf idx) = length pfx + 48"
proof -
  have "map_sum id out (rx_chunk clk (fresh MODE_HEX) (Some [0x41, 0x42, 0x43]))
       = Inr (CR # '' 414243'' @ replicate 40 (CHR '' '') @ ''ABC'')"
    by code_simp
  then show ?thesis
    using assms by (simp add: hex_section_width print_hex_line_def)
qed

text \<open>The statement at the three bytes 41 42 43 and the empty prefix.\<close>

theorem hex_line_width_witness:
  "(0::int) \<le> 3 \<and> (3::int) \<le> HCOLS
   \<and> print_hex_line [] [0x41, 0x42, 0x43] 3
       = hex_section [] [0x41, 0x42, 0x43] 3 @ ascii_cols [0x41, 0x42, 0x43] 3 0
   \<and> length (hex_section [] [0x41, 0x42, 0x43] 3) = 48"
  using hex_line_width [of 3 no_clock "[]" "[0x41, 0x42, 0x43]"] by simp

text \<open>
  The claim C7 gives the hex pairs of that line as \<open>4142 43\<close>. The line printed has the
  three pairs together, and \<open>4142 43\<close> nowhere.
\<close>

theorem hex_line_groups_counterexample:
  "map_sum id out (rx_chunk no_clock (fresh MODE_HEX) (Some [0x41, 0x42, 0x43]))
     = Inr (CR # '' 414243'' @ replicate 40 (CHR '' '') @ ''ABC'')
   \<and> \<not> sublist ''4142 43'' (CR # '' 414243'' @ replicate 40 (CHR '' '') @ ''ABC'')"
  by code_simp

section \<open>The claims about the decoder\<close>

text \<open>
  Claim C6. From the initial state the bytes C0 41 42 DB DC 43 C0 give one packet, the four
  bytes 41 42 C0 43: they are what \<^verbatim>\<open>rxbuf\<close> holds, with \<open>index = 4\<close>, when the closing
  delimiter comes, and the closing delimiter prints them as one \<open>SLIP:\<close> line, the only
  output, and sets \<open>index\<close> back to 0. The same in \<open>MODE_SLIP\<close> and \<open>MODE_SLIP_AUTO\<close>.
\<close>

theorem scenario_escaped_delimiter:
  "map_sum id out (rx_loop clk (fresh MODE_SLIP) [0xC0, 0x41, 0x42, 0xDB, 0xDC, 0x43, 0xC0])
     = Inr (CR # ''SLIP: 4142C043'' @ replicate 38 (CHR '' '') @ ''AB.C'' @ [LF])
   \<and> map_sum id out (rx_loop clk (fresh MODE_SLIP_AUTO) [0xC0, 0x41, 0x42, 0xDB, 0xDC, 0x43, 0xC0])
     = Inr (CR # ''SLIP: 4142C043'' @ replicate 38 (CHR '' '') @ ''AB.C'' @ [LF])
   \<and> slip_show ''SLIP:'' [0x41, 0x42, 0xC0, 0x43] 4 0
     = CR # ''SLIP: 4142C043'' @ replicate 38 (CHR '' '') @ ''AB.C'' @ [LF]
   \<and> map_sum id index (rx_loop clk (fresh MODE_SLIP) [0xC0, 0x41, 0x42, 0xDB, 0xDC, 0x43]) = Inr 4
   \<and> map_sum id (take 4 \<circ> rxbuf) (rx_loop clk (fresh MODE_SLIP) [0xC0, 0x41, 0x42, 0xDB, 0xDC, 0x43])
     = Inr [0x41, 0x42, 0xC0, 0x43]
   \<and> map_sum id index (rx_loop clk (fresh MODE_SLIP) [0xC0, 0x41, 0x42, 0xDB, 0xDC, 0x43, 0xC0]) = Inr 0"
  by code_simp

text \<open>
  Claim C5. A chunk \<open>B\<close> of standard input without delimiter and escape bytes (not empty:
  nothing is sent for an empty read; a chunk has at most 40 bytes, and the statement holds
  up to 2047) is sent in \<open>MODE_SLIP\<close> between two delimiters, and a receiver that starts
  in any of the three SLIP modes decodes what was sent to the packet \<open>B\<close>: \<^verbatim>\<open>rxbuf\<close> begins
  with \<open>B\<close>, the lines printed are those of \<open>B\<close> (nothing in \<open>MODE_SLIP_HIDE\<close>), nothing
  goes to standard error, and the decoder is back in its initial state. (In these modes
  the end of a chunk does nothing, \<open>rx_chunk_slip\<close>: it does not matter how the bytes
  sent are cut into chunks on their way.)
\<close>

theorem roundtrip_plain:
  assumes B: "B \<noteq> []" "length B < 2048" "SLIP_END \<notin> set B" "SLIP_ESC \<notin> set B"
    and ok: "\<forall>k<length B. ok k"
    and m: "m \<in> {MODE_SLIP, MODE_SLIP_AUTO, MODE_SLIP_HIDE}"
  shows "\<exists>ws s'. tx_chunk MODE_SLIP ok (Some B) = Inr ws
     \<and> rx_loop clk (fresh m) ws = Inr s'
     \<and> take (length B) (rxbuf s') = B
     \<and> out s' = (if m = MODE_SLIP_HIDE then [] else slip_show ''SLIP:'' B (int (length B)) 0)
     \<and> err s' = [] \<and> index s' = 0 \<and> flags s' = 0 \<and> lastc s' = 0"
proof -
  have tx: "tx_chunk MODE_SLIP ok (Some B) = Inr (SLIP_END # B @ [SLIP_END])"
    by (rule tx_chunk_slip) (use B ok in auto)
  have D: "slip_payload False B = B"
    using B(4) by (rule slip_payload_plain)
  have "\<exists>s'. rx_loop clk (fresh m) (SLIP_END # B @ [SLIP_END]) = Inr s' \<and> mode s' = mode (fresh m)
     \<and> index s' = 0 \<and> flags s' = 0 \<and> lastc s' = 0 \<and> err s' = err (fresh m)
     \<and> length (rxbuf s') = 2048
     \<and> take (length (slip_payload False B)) (rxbuf s') = slip_payload False B
     \<and> out s' = out (fresh m) @ (if mode (fresh m) = MODE_SLIP_HIDE then []
                          else slip_show ''SLIP:'' (slip_payload False B) (int (length (slip_payload False B))) 0)"
    by (rule rx_frame) (use B m D in simp_all)
  then show ?thesis
    using tx by (auto simp: D)
qed

text \<open>The statement at the chunk 41 42, sent over a line that takes every write.\<close>

theorem roundtrip_plain_witness:
  "[0x41, 0x42] \<noteq> [] \<and> SLIP_END \<notin> set [0x41, 0x42] \<and> SLIP_ESC \<notin> set [0x41, 0x42]
   \<and> line_up 0 \<and> line_up 1
   \<and> (\<exists>ws s'. tx_chunk MODE_SLIP line_up (Some [0x41, 0x42]) = Inr ws
     \<and> rx_loop no_clock (fresh MODE_SLIP) ws = Inr s'
     \<and> take (length [0x41, 0x42 :: byte]) (rxbuf s') = [0x41, 0x42]
     \<and> out s' = slip_show ''SLIP:'' [0x41, 0x42] 2 0
     \<and> err s' = [] \<and> index s' = 0 \<and> flags s' = 0 \<and> lastc s' = 0)"
  using roundtrip_plain [of "[0x41, 0x42]" line_up MODE_SLIP no_clock]
  by (simp add: line_up_def)

text \<open>
  Claim C1, as the program has it. The transmit path escapes nothing: a chunk \<open>B\<close> is
  sent as it is between two delimiters. Let \<open>B\<close> have a delimiter or an escape byte, and
  let \<open>pre\<close> be \<open>B\<close> up to its first delimiter (all of \<open>B\<close> if it has none). The first
  packet the receiver decodes is then \<open>slip_payload False pre\<close>, that is \<open>pre\<close> without
  its escape bytes and with the byte after each of them mapped by \<open>unesc\<close> (provided some
  byte is left): a packet shorter than \<open>B\<close>, so never \<open>B\<close>. It is the only packet when
  \<open>B\<close> has no delimiter; otherwise what follows the first delimiter of \<open>B\<close> is handled as
  further input, after the lines of that packet.
\<close>

theorem roundtrip_escapes:
  assumes B: "B = pre @ rest" "SLIP_END \<notin> set pre" "rest = [] \<or> hd rest = SLIP_END"
      "SLIP_ESC \<in> set pre \<or> rest \<noteq> []" "length B < 2048"
    and D: "slip_payload False pre \<noteq> []"
    and ok: "\<forall>k<length B. ok k"
    and m: "m \<in> {MODE_SLIP, MODE_SLIP_AUTO, MODE_SLIP_HIDE}"
  shows "\<exists>s1 s'. tx_chunk MODE_SLIP ok (Some B) = Inr (SLIP_END # B @ [SLIP_END])
     \<and> rx_loop clk (fresh m) (SLIP_END # pre @ [SLIP_END]) = Inr s1
     \<and> take (length (slip_payload False pre)) (rxbuf s1) = slip_payload False pre
     \<and> out s1 = (if m = MODE_SLIP_HIDE then []
                 else slip_show ''SLIP:'' (slip_payload False pre) (int (length (slip_payload False pre))) 0)
     \<and> err s1 = [] \<and> index s1 = 0 \<and> flags s1 = 0 \<and> lastc s1 = 0
     \<and> length (slip_payload False pre) < length B
     \<and> rx_loop clk (fresh m) (SLIP_END # B @ [SLIP_END]) = Inr s'
     \<and> prefix (out s1) (out s')
     \<and> (rest = [] \<longrightarrow> s' = s1)"
proof -
  let ?D = "slip_payload False pre"
  have ne: "B \<noteq> []" using B(1,4) by auto
  have tx: "tx_chunk MODE_SLIP ok (Some B) = Inr (SLIP_END # B @ [SLIP_END])"
    by (rule tx_chunk_slip) (use ne ok in auto)
  have lt: "length ?D < length B"
  proof (cases "rest = []")
    case True
    then have "SLIP_ESC \<in> set pre" using B(4) by simp
    then show ?thesis using length_slip_payload_esc [of pre False] B(1) True by simp
  next
    case False
    then show ?thesis
      using length_slip_payload [of False pre] B(1) by (cases rest) auto
  qed
  have mf: "mode (fresh m) \<in> {MODE_SLIP, MODE_SLIP_AUTO, MODE_SLIP_HIDE}" using m by simp
  have pre: "length (rxbuf (fresh m)) = 2048" "index (fresh m) = 0" "flags (fresh m) = 0"
    "lastc (fresh m) = (if False then SLIP_ESC else 0)"
    by simp_all
  have D2: "length ?D < 2048" using lt B(5) by simp
  from rx_frame [OF mf pre B(2) D D2, of clk]
  obtain s1 where s1: "rx_loop clk (fresh m) (SLIP_END # pre @ [SLIP_END]) = Inr s1"
    "mode s1 = mode (fresh m)" "index s1 = 0" "flags s1 = 0" "lastc s1 = 0" "err s1 = err (fresh m)"
    "length (rxbuf s1) = 2048" "take (length ?D) (rxbuf s1) = ?D"
    "out s1 = out (fresh m) @ (if mode (fresh m) = MODE_SLIP_HIDE then []
                          else slip_show ''SLIP:'' ?D (int (length ?D)) 0)"
    by blast
  have first: "take (length ?D) (rxbuf s1) = ?D"
     "out s1 = (if m = MODE_SLIP_HIDE then [] else slip_show ''SLIP:'' ?D (int (length ?D)) 0)"
     "err s1 = []" "index s1 = 0" "flags s1 = 0" "lastc s1 = 0"
    using s1 by simp_all
  show ?thesis
  proof (cases "rest = []")
    case True
    then have "rx_loop clk (fresh m) (SLIP_END # B @ [SLIP_END]) = Inr s1"
      using s1(1) B(1) by simp
    then show ?thesis
      using tx s1(1) first lt True by (intro exI [of _ s1]) simp
  next
    case False
    then have r: "rest = SLIP_END # tl rest" using B(3) by (cases rest) auto
    have b1: "in_bounds s1"
      using s1(2,3,7) m by (auto simp: in_bounds_def index_cap_def)
    have m1: "mode s1 \<in> {MODE_SLIP, MODE_SLIP_AUTO, MODE_SLIP_HIDE}" using s1(2) m by simp
    from rx_loop_in_bounds [OF b1 m1, of "\<lambda>k. clk (length pre + 2 + k)" "tl rest @ [SLIP_END]"]
    obtain s' where s': "rx_loop (\<lambda>k. clk (length pre + 2 + k)) s1 (tl rest @ [SLIP_END]) = Inr s'"
      by blast
    have "SLIP_END # B @ [SLIP_END] = (SLIP_END # pre @ [SLIP_END]) @ (tl rest @ [SLIP_END])"
      using B(1) r by (metis append.assoc append_Cons append_Nil)
    moreover have "rx_loop clk (fresh m) ((SLIP_END # pre @ [SLIP_END]) @ (tl rest @ [SLIP_END]))
        = rx_loop (\<lambda>k. clk (length (SLIP_END # pre @ [SLIP_END]) + k)) s1 (tl rest @ [SLIP_END])"
      using s1(1) by (simp only: rx_loop_append sum.case)
    moreover have "(\<lambda>k. clk (length (SLIP_END # pre @ [SLIP_END]) + k)) = (\<lambda>k. clk (length pre + 2 + k))"
      by simp
    ultimately have whole: "rx_loop clk (fresh m) (SLIP_END # B @ [SLIP_END]) = Inr s'"
      using s' by (simp only:)
    have "prefix (out s1) (out s')" using s' by (rule rx_loop_out_prefix)
    then show ?thesis
      using tx s1(1) first lt False whole by (intro exI [of _ s1] exI [of _ s']) simp
  qed
qed

text \<open>The statement at the chunk DB 41, and at the chunk 41 C0 42, cut at its delimiter.\<close>

theorem roundtrip_escapes_witness:
  "SLIP_ESC \<in> set [SLIP_ESC, 0x41] \<and> SLIP_END \<notin> set [SLIP_ESC, 0x41]
   \<and> slip_payload False [SLIP_ESC, 0x41] = [0x41]
   \<and> (\<exists>s'. tx_chunk MODE_SLIP line_up (Some [SLIP_ESC, 0x41]) = Inr [SLIP_END, SLIP_ESC, 0x41, SLIP_END]
     \<and> rx_loop no_clock (fresh MODE_SLIP) [SLIP_END, SLIP_ESC, 0x41, SLIP_END] = Inr s'
     \<and> take (length [0x41 :: byte]) (rxbuf s') = [0x41]
     \<and> out s' = slip_show ''SLIP:'' [0x41] 1 0
     \<and> err s' = [] \<and> index s' = 0 \<and> flags s' = 0 \<and> lastc s' = 0)
   \<and> (\<exists>s1 s'. tx_chunk MODE_SLIP line_up (Some [0x41, SLIP_END, 0x42]) = Inr [SLIP_END, 0x41, SLIP_END, 0x42, SLIP_END]
     \<and> rx_loop no_clock (fresh MODE_SLIP) [SLIP_END, 0x41, SLIP_END] = Inr s1
     \<and> out s1 = slip_show ''SLIP:'' [0x41] 1 0
     \<and> rx_loop no_clock (fresh MODE_SLIP) [SLIP_END, 0x41, SLIP_END, 0x42, SLIP_END] = Inr s'
     \<and> prefix (out s1) (out s'))"
  using roundtrip_escapes [of "[SLIP_ESC, 0x41]" "[SLIP_ESC, 0x41]" "[]" line_up MODE_SLIP no_clock]
    roundtrip_escapes [of "[0x41, SLIP_END, 0x42]" "[0x41]" "[SLIP_END, 0x42]" line_up MODE_SLIP no_clock]
  by (simp add: line_up_def unesc_def) blast

text \<open>
  Claim C1 fails at the chunk DB 41: it is sent as C0 DB 41 C0 and decoded to the packet
  41, whose line is not the line of DB 41. It fails at the chunk C0 too: C0 C0 C0 is sent
  and no packet comes out.
\<close>

theorem roundtrip_escapes_counterexample:
  "tx_chunk MODE_SLIP line_up (Some [SLIP_ESC, 0x41]) = Inr [SLIP_END, SLIP_ESC, 0x41, SLIP_END]
   \<and> map_sum id out (rx_loop no_clock (fresh MODE_SLIP) [SLIP_END, SLIP_ESC, 0x41, SLIP_END])
       = Inr (slip_show ''SLIP:'' [0x41] 1 0)
   \<and> slip_show ''SLIP:'' [0x41] 1 0 \<noteq> slip_show ''SLIP:'' [SLIP_ESC, 0x41] 2 0
   \<and> tx_chunk MODE_SLIP line_up (Some [SLIP_END]) = Inr [SLIP_END, SLIP_END, SLIP_END]
   \<and> map_sum id out (rx_loop no_clock (fresh MODE_SLIP) [SLIP_END, SLIP_END, SLIP_END]) = Inr []"
  by code_simp

text \<open>
  Claim C2, as the program has it. Let the decoder be between two packets, and let a
  packet come whose decoded length reaches the 2048 bytes of \<^verbatim>\<open>rxbuf\<close> (and whose last
  byte is not an escape byte). Then, when its bytes are in, \<open>flags\<close> is 2 and \<open>index\<close> is
  the decoded length modulo 2048: the bytes after the overflow are stored again from the
  start of \<^verbatim>\<open>rxbuf\<close>. The closing delimiter prints nothing of the packet; the overflow has
  been reported on standard error once for every 2048 bytes; \<open>index\<close>, \<open>flags\<close> and \<open>lastc\<close>
  are 0 again. The packet that follows, if its decoded length is between 1 and 2047, is
  decoded and shown as after a fresh start.
\<close>

theorem overflow_discards_frame:
  assumes m: "mode s \<in> {MODE_SLIP, MODE_SLIP_AUTO, MODE_SLIP_HIDE}"
    and s: "length (rxbuf s) = 2048" "index s = 0" "flags s = 0" "lastc s = 0"
    and bs: "SLIP_END \<notin> set bs" "2048 \<le> length (slip_payload False bs)" "\<not> esc_after False bs"
    and qs: "SLIP_END \<notin> set qs" "slip_payload False qs \<noteq> []" "length (slip_payload False qs) < 2048"
  shows "\<exists>s0 s1 s2.
       rx_loop clk s (SLIP_END # bs) = Inr s0
     \<and> flags s0 = 2 \<and> index s0 = int (length (slip_payload False bs) mod 2048) \<and> out s0 = out s
     \<and> rx_loop clk s (SLIP_END # bs @ [SLIP_END]) = Inr s1
     \<and> out s1 = out s
     \<and> err s1 = err s @ concat (replicate (length (slip_payload False bs) div 2048) overflow_msg)
     \<and> mode s1 = mode s \<and> index s1 = 0 \<and> flags s1 = 0 \<and> lastc s1 = 0
     \<and> rx_loop clk' s1 (SLIP_END # qs @ [SLIP_END]) = Inr s2
     \<and> take (length (slip_payload False qs)) (rxbuf s2) = slip_payload False qs
     \<and> out s2 = out s @ (if mode s = MODE_SLIP_HIDE then []
                          else slip_show ''SLIP:'' (slip_payload False qs) (int (length (slip_payload False qs))) 0)
     \<and> err s2 = err s1
     \<and> index s2 = 0 \<and> flags s2 = 0 \<and> lastc s2 = 0"
proof -
  let ?D = "slip_payload False bs"
  let ?Q = "slip_payload False qs"
  have l0: "lastc s = (if False then SLIP_ESC else 0)" using s(4) by simp
  from rx_frame_body [OF m s(1-3) l0 bs(1), of clk]
  obtain s0 where s0: "rx_loop clk s (SLIP_END # bs) = Inr s0" "out s0 = out s"
     "index s0 = int (length ?D) mod 2048"
     "flags s0 = (if int (length ?D) \<ge> 2048 then 2 else 1)"
    by blast
  from rx_frame_overflow [OF m s(1-3) l0 bs(1,2), of clk]
  obtain s1 where s1: "rx_loop clk s (SLIP_END # bs @ [SLIP_END]) = Inr s1" "mode s1 = mode s"
     "index s1 = 0" "flags s1 = 0"
     "lastc s1 = (if length ?D mod 2048 = 0 \<and> esc_after False bs then SLIP_ESC else 0)"
     "err s1 = err s @ concat (replicate (length ?D div 2048) overflow_msg)"
     "length (rxbuf s1) = 2048" "out s1 = out s"
    by blast
  have l1: "lastc s1 = 0" using s1(5) bs(3) by simp
  then have l1': "lastc s1 = (if False then SLIP_ESC else 0)" by simp
  have m1: "mode s1 \<in> {MODE_SLIP, MODE_SLIP_AUTO, MODE_SLIP_HIDE}" using m s1(2) by simp
  from rx_frame [OF m1 s1(7,3,4) l1' qs, of clk']
  obtain s2 where s2: "rx_loop clk' s1 (SLIP_END # qs @ [SLIP_END]) = Inr s2"
     "index s2 = 0" "flags s2 = 0" "lastc s2 = 0" "err s2 = err s1"
     "take (length ?Q) (rxbuf s2) = ?Q"
     "out s2 = out s1 @ (if mode s1 = MODE_SLIP_HIDE then []
                          else slip_show ''SLIP:'' ?Q (int (length ?Q)) 0)"
    by blast
  have f0: "flags s0 = 2" using s0(4) bs(2) by simp
  have i0: "index s0 = int (length ?D mod 2048)" using s0(3) by (simp add: zmod_int)
  have o2: "out s2 = out s @ (if mode s = MODE_SLIP_HIDE then []
                          else slip_show ''SLIP:'' ?Q (int (length ?Q)) 0)"
    using s2(7) s1(2,8) by simp
  show ?thesis
    using s0(1,2) f0 i0 s1(1,2,3,4,6,8) l1 s2(1-6) o2 by blast
qed

text \<open>The statement from the initial state: a packet of 2048 bytes 41, then the packet 42.\<close>

theorem overflow_discards_frame_witness:
  "SLIP_END \<notin> set (replicate 2048 (0x41 :: byte)) \<and> \<not> esc_after False (replicate 2048 0x41)
   \<and> length (slip_payload False (replicate 2048 0x41)) = 2048
   \<and> slip_payload False [0x42] = [0x42]
   \<and> (\<exists>s0 s1 s2.
       rx_loop no_clock (fresh MODE_SLIP) (SLIP_END # replicate 2048 0x41) = Inr s0
     \<and> flags s0 = 2 \<and> index s0 = 0 \<and> out s0 = []
     \<and> rx_loop no_clock (fresh MODE_SLIP) (SLIP_END # replicate 2048 0x41 @ [SLIP_END]) = Inr s1
     \<and> out s1 = []
     \<and> err s1 = overflow_msg
     \<and> mode s1 = MODE_SLIP \<and> index s1 = 0 \<and> flags s1 = 0 \<and> lastc s1 = 0
     \<and> rx_loop no_clock s1 [SLIP_END, 0x42, SLIP_END] = Inr s2
     \<and> take (length [0x42 :: byte]) (rxbuf s2) = [0x42]
     \<and> out s2 = slip_show ''SLIP:'' [0x42] 1 0
     \<and> err s2 = err s1
     \<and> index s2 = 0 \<and> flags s2 = 0 \<and> lastc s2 = 0)"
  using overflow_discards_frame [of "fresh MODE_SLIP" "replicate 2048 0x41" "[0x42]" no_clock no_clock]
  by (simp add: esc_after_last)

text \<open>
  Claim C2 has the bytes after the overflow dropped, not buffered. After 2048 bytes of a
  packet the next byte, 42, is stored in \<^verbatim>\<open>rxbuf[0]\<close> and \<open>index\<close> is 1; and a packet of 4096
  bytes has its overflow reported twice.
\<close>

theorem overflow_restarts_buffer_counterexample:
  "map_sum id index (rx_loop no_clock (fresh MODE_SLIP) (SLIP_END # replicate 2048 0x41 @ [0x42])) = Inr 1
   \<and> map_sum id (hd \<circ> rxbuf) (rx_loop no_clock (fresh MODE_SLIP) (SLIP_END # replicate 2048 0x41 @ [0x42]))
       = Inr 0x42
   \<and> map_sum id err (rx_loop no_clock (fresh MODE_SLIP) (SLIP_END # replicate 4096 0x41 @ [SLIP_END]))
       = Inr (overflow_msg @ overflow_msg)"
proof -
  let ?s = "fresh MODE_SLIP"
  let ?bs = "replicate 2048 (0x41 :: byte)"
  have m: "mode ?s \<in> {MODE_SLIP, MODE_SLIP_AUTO, MODE_SLIP_HIDE}" by simp
  have pre: "length (rxbuf ?s) = 2048" "index ?s = 0" "flags ?s = 0"
    "lastc ?s = (if False then SLIP_ESC else 0)"
    by simp_all
  have "SLIP_END \<notin> set ?bs" by simp
  from rx_frame_body [OF m pre this, of no_clock]
  obtain s0 where s0: "rx_loop no_clock ?s (SLIP_END # ?bs) = Inr s0" "mode s0 = mode ?s"
     "length (rxbuf s0) = 2048"
     "index s0 = int (length (slip_payload False ?bs)) mod 2048"
    by blast
  have i0: "index s0 = 0" using s0(4) by simp
  have dec: "decoding s0" using s0(2) by (simp add: decoding_def)
  define s1 where "s1 = s0\<lparr>lastc := (if lastc s0 = SLIP_ESC then 0 else lastc s0),
                 rxbuf := (rxbuf s0)[nat (index s0) := (if lastc s0 = SLIP_ESC then unesc 0x42 else 0x42)],
                 index := index s0 + 1\<rparr>"
  have "rx_byte ts s0 0x42 = Inr s1" for ts
    using rx_byte_data [OF dec, of "0x42" ts] i0 s0(3) by (simp add: s1_def)
  then have run: "rx_loop no_clock ?s ((SLIP_END # ?bs) @ [0x42]) = Inr s1"
    using s0(1) by (simp only: rx_loop_append) simp
  have "index s1 = 1" using i0 by (simp add: s1_def)
  moreover have "hd (rxbuf s1) = 0x42"
  proof -
    have "rxbuf s0 \<noteq> []" using s0(3) by auto
    then show ?thesis
      using i0 by (simp add: s1_def hd_conv_nth unesc_def)
  qed
  ultimately have first: "map_sum id index (rx_loop no_clock ?s (SLIP_END # ?bs @ [0x42])) = Inr 1"
    "map_sum id (hd \<circ> rxbuf) (rx_loop no_clock ?s (SLIP_END # ?bs @ [0x42])) = Inr 0x42"
    using run by simp_all
  let ?cs = "replicate 4096 (0x41 :: byte)"
  have "SLIP_END \<notin> set ?cs" "2048 \<le> length (slip_payload False ?cs)" by simp_all
  from rx_frame_overflow [OF m pre this, of no_clock]
  obtain s2 where s2: "rx_loop no_clock ?s (SLIP_END # ?cs @ [SLIP_END]) = Inr s2"
    "err s2 = err ?s @ concat (replicate (length (slip_payload False ?cs) div 2048) overflow_msg)"
    by blast
  have "length (slip_payload False ?cs) div 2048 = Suc (Suc 0)" by simp
  then have "err s2 = overflow_msg @ overflow_msg"
    using s2(2) by (simp only: replicate.simps concat.simps fresh_simps append_Nil append_Nil2)
  then show ?thesis using first s2(1) by simp
qed

text \<open>
  Claim C9. In every state the receive loop can reach, \<open>index\<close> is at least 0 and below
  the value at which the mode sets it back (20 in hex mode, 2048 for a SLIP packet, never
  more than 2048), and \<^verbatim>\<open>rxbuf\<close> has its 2048 bytes. From such a state no byte makes the
  loop leave the array (\<^verbatim>\<open>rx_byte\<close> never gives \<open>OutOfBounds\<close>): the byte is stored, in
  hex mode and for a data byte of a packet, at position \<open>index\<close>, so below 20 or below
  2048, and \<open>index\<close> goes up by one or, in the step in which it would reach that value,
  back to 0; no other step changes \<^verbatim>\<open>rxbuf\<close>. The end of a chunk changes neither.
\<close>

theorem index_in_bounds:
  assumes "reachable m s"
  shows "0 \<le> index s \<and> index s < index_cap (mode s) \<and> index_cap (mode s) \<le> RXBUF_SIZE
     \<and> index_cap MODE_HEX = HCOLS
     \<and> length (rxbuf s) = 2048
     \<and> (\<exists>s'. rx_byte ts s c = Inr s'
          \<and> (if mode s = MODE_HEX \<or> (decoding s \<and> c \<noteq> SLIP_END \<and> c \<noteq> SLIP_ESC)
              then rxbuf s' = (rxbuf s)[nat (index s) :=
                     (if mode s \<noteq> MODE_HEX \<and> lastc s = SLIP_ESC then unesc c else c)]
                   \<and> index s' = (if index s + 1 \<ge> index_cap (mode s) then 0 else index s + 1)
              else rxbuf s' = rxbuf s))
     \<and> (\<exists>s'. rx_flush s = Inr s' \<and> rxbuf s' = rxbuf s \<and> index s' = index s)"
proof -
  have b: "in_bounds s" using assms by (rule reachable_in_bounds)
  then have "0 \<le> index s" "index s < index_cap (mode s)" "length (rxbuf s) = 2048"
    by (simp_all add: in_bounds_def)
  moreover have "index_cap (mode s) \<le> RXBUF_SIZE" "index_cap MODE_HEX = HCOLS"
    by (cases "mode s"; simp add: index_cap_def)+
  ultimately show ?thesis
    using rx_byte_store [OF b, of ts c] rx_flush_keeps [OF b] by blast
qed

text \<open>The statement at the initial state of \<open>MODE_SLIP\<close>, with the byte 41.\<close>

theorem index_in_bounds_witness:
  "reachable MODE_SLIP (fresh MODE_SLIP)
   \<and> index (fresh MODE_SLIP) = 0 \<and> index_cap MODE_SLIP = 2048
   \<and> (\<exists>s'. rx_byte [] (fresh MODE_SLIP) 0x41 = Inr s'
         \<and> rxbuf s' = (rxbuf (fresh MODE_SLIP))[0 := 0x41] \<and> index s' = 1)
   \<and> (\<exists>s'. rx_flush (fresh MODE_SLIP) = Inr s' \<and> rxbuf s' = rxbuf (fresh MODE_SLIP) \<and> index s' = 0)"
  using index_in_bounds [OF reachable.start, of MODE_SLIP "[]" "0x41"] reachable.start [of MODE_SLIP]
  by (simp add: decoding_def index_cap_def)

text \<open>
  Claim C3. In the three SLIP modes a delimiter that finds \<open>index > 0\<close> closes the packet
  whatever \<open>flags\<close> is: \<open>index\<close>, \<open>flags\<close> and \<open>lastc\<close> go to 0, and the packet is shown unless
  it has overflowed (\<open>flags = 2\<close>) or the mode hides packets. A delimiter that finds the
  buffer empty only switches \<open>flags\<close> between 0 and not 0 and prints nothing. Hence, after
  any input \<open>xs\<close> from the start, a delimiter leaves \<open>index = 0\<close> and a second one right
  after it changes \<open>flags\<close> alone: no empty packet is shown.
\<close>

theorem delimiter_closes_or_toggles:
  assumes s: "mode s \<in> {MODE_SLIP, MODE_SLIP_AUTO, MODE_SLIP_HIDE}" "index s \<le> int (length (rxbuf s))"
    and m: "m \<in> {MODE_SLIP, MODE_SLIP_AUTO, MODE_SLIP_HIDE}"
  shows "(0 < index s \<longrightarrow>
            rx_byte ts s SLIP_END =
              Inr (s\<lparr>out := out s @ (if flags s \<noteq> 2 \<and> mode s \<noteq> MODE_SLIP_HIDE
                                      then slip_show ''SLIP:'' (rxbuf s) (index s) 0 else []),
                     lastc := 0, index := 0, flags := 0\<rparr>))
     \<and> (index s \<le> 0 \<longrightarrow>
            rx_byte ts s SLIP_END = Inr (s\<lparr>flags := (if flags s = 0 then 1 else 0)\<rparr>))
     \<and> (\<exists>s1. rx_loop clk (fresh m) (xs @ [SLIP_END]) = Inr s1 \<and> index s1 = 0
            \<and> rx_loop clk (fresh m) (xs @ [SLIP_END, SLIP_END])
                 = Inr (s1\<lparr>flags := (if flags s1 = 0 then 1 else 0)\<rparr>))"
proof -
  have a: "rx_byte ts s SLIP_END =
              Inr (s\<lparr>out := out s @ (if flags s \<noteq> 2 \<and> mode s \<noteq> MODE_SLIP_HIDE
                                      then slip_show ''SLIP:'' (rxbuf s) (index s) 0 else []),
                     lastc := 0, index := 0, flags := 0\<rparr>)" if "0 < index s"
    using s(1) that s(2) by (rule rx_byte_end_close)
  have b: "rx_byte ts s SLIP_END = Inr (s\<lparr>flags := (if flags s = 0 then 1 else 0)\<rparr>)"
    if "index s \<le> 0"
    using s(1) that by (rule rx_byte_end_empty)
  have mf: "mode (fresh m) \<in> {MODE_SLIP, MODE_SLIP_AUTO, MODE_SLIP_HIDE}" using m by simp
  from rx_loop_in_bounds [OF in_bounds_fresh mf, of clk "xs @ [SLIP_END]"]
  obtain s1 where s1: "rx_loop clk (fresh m) (xs @ [SLIP_END]) = Inr s1" "in_bounds s1"
    "mode s1 = mode (fresh m)"
    by blast
  from rx_loop_in_bounds [OF in_bounds_fresh mf, of clk xs]
  obtain s0 where s0: "rx_loop clk (fresh m) xs = Inr s0" "in_bounds s0" "mode s0 = mode (fresh m)"
    by blast
  have m0: "mode s0 \<in> {MODE_SLIP, MODE_SLIP_AUTO, MODE_SLIP_HIDE}" using s0(3) mf by simp
  have m1: "mode s1 \<in> {MODE_SLIP, MODE_SLIP_AUTO, MODE_SLIP_HIDE}" using s1(3) mf by simp
  have step1: "rx_byte (clk (length xs)) s0 SLIP_END = Inr s1"
    using s1(1) s0(1) by (simp add: rx_loop_append split: sum.splits)
  have i1: "index s1 = 0"
  proof (cases "0 < index s0")
    case True
    have "index s0 \<le> int (length (rxbuf s0))"
      using s0(2) by (cases "mode s0") (simp_all add: in_bounds_def index_cap_def)
    from rx_byte_end_close [OF m0 True this, of "clk (length xs)"] step1
    show ?thesis by auto
  next
    case False
    then have le: "index s0 \<le> 0" by simp
    moreover have "0 \<le> index s0" using s0(2) by (simp add: in_bounds_def)
    ultimately have "index s0 = 0" by simp
    with rx_byte_end_empty [OF m0 le, of "clk (length xs)"] step1
    show ?thesis by auto
  qed
  then have "index s1 \<le> 0" by simp
  from rx_byte_end_empty [OF m1 this]
  have step2: "rx_byte t s1 SLIP_END = Inr (s1\<lparr>flags := (if flags s1 = 0 then 1 else 0)\<rparr>)" for t .
  have "xs @ [SLIP_END, SLIP_END] = (xs @ [SLIP_END]) @ [SLIP_END]" by simp
  then have "rx_loop clk (fresh m) (xs @ [SLIP_END, SLIP_END])
                 = Inr (s1\<lparr>flags := (if flags s1 = 0 then 1 else 0)\<rparr>)"
    using s1(1) step2 by (simp only: rx_loop_append) simp
  then show ?thesis using a b s1(1) i1 by blast
qed

text \<open>The statement at the initial state, at a state with one byte in the buffer, and for the input C0 41 followed by two delimiters.\<close>

theorem delimiter_closes_or_toggles_witness:
  "(\<exists>s1. rx_loop no_clock (fresh MODE_SLIP) [SLIP_END, 0x41, SLIP_END] = Inr s1 \<and> index s1 = 0
       \<and> rx_loop no_clock (fresh MODE_SLIP) [SLIP_END, 0x41, SLIP_END, SLIP_END]
            = Inr (s1\<lparr>flags := (if flags s1 = 0 then 1 else 0)\<rparr>))
   \<and> rx_byte [] (fresh MODE_SLIP) SLIP_END = Inr ((fresh MODE_SLIP)\<lparr>flags := 1\<rparr>)
   \<and> rx_byte [] ((fresh MODE_SLIP)\<lparr>index := 1, flags := 1\<rparr>) SLIP_END
       = Inr ((fresh MODE_SLIP)\<lparr>index := 0, flags := 0, lastc := 0,
                out := slip_show ''SLIP:'' (rxbuf (fresh MODE_SLIP)) 1 0\<rparr>)"
  using delimiter_closes_or_toggles [of "fresh MODE_SLIP" MODE_SLIP "[]" no_clock "[SLIP_END, 0x41]"]
    delimiter_closes_or_toggles [of "(fresh MODE_SLIP)\<lparr>index := 1, flags := 1\<rparr>" MODE_SLIP "[]"]
  by simp

text \<open>
  Claim C4 at the input where the program breaks it. After C0 DB C0 from the start the
  delimiter has found the buffer empty, and \<open>lastc\<close> is still the escape byte: the branch
  for the empty buffer does not clear it, as the branch that closes a packet does. The
  packet that follows, C0 DC 41 C0, is then shown as C0 41, its first byte unescaped
  although the byte read before it was a delimiter.
\<close>

theorem escape_survives_empty_delimiter:
  "map_sum id lastc (rx_loop no_clock (fresh MODE_SLIP) [SLIP_END, SLIP_ESC, SLIP_END]) = Inr SLIP_ESC
   \<and> map_sum id out (rx_loop no_clock (fresh MODE_SLIP)
         [SLIP_END, SLIP_ESC, SLIP_END, SLIP_END, SLIP_ESC_END, 0x41, SLIP_END])
       = Inr (slip_show ''SLIP:'' [SLIP_END, 0x41] 2 0)"
  by code_simp

text \<open>
  Claim C8, as the program has it. When the byte before was an escape byte and the byte
  \<open>c\<close> is neither of the two escaped values, nor a delimiter, nor an escape byte, the
  decoder stores \<open>c\<close> unchanged at \<open>index\<close>, clears \<open>lastc\<close> and goes on as after any data
  byte (with the overflow report if \<open>c\<close> was byte 2048 of the packet). So a packet with
  \<open>DB c\<close> in it is decoded and shown with \<open>c\<close> in that place.
\<close>

theorem malformed_escape_passes:
  assumes dec: "decoding s" and esc: "lastc s = SLIP_ESC"
    and c: "c \<noteq> SLIP_ESC_END" "c \<noteq> SLIP_ESC_ESC" "c \<noteq> SLIP_END" "c \<noteq> SLIP_ESC"
    and i: "0 \<le> index s" "index s < int (length (rxbuf s))"
    and m: "m \<in> {MODE_SLIP, MODE_SLIP_AUTO}"
    and f: "SLIP_END \<notin> set pre" "SLIP_END \<notin> set post" "\<not> esc_after False pre"
      "length (slip_payload False pre) + length (slip_payload False post) < 2047"
  shows "(\<exists>s'. rx_byte ts s c = Inr s'
            \<and> rxbuf s' = (rxbuf s)[nat (index s) := c] \<and> rxbuf s' ! nat (index s) = c
            \<and> lastc s' = 0 \<and> out s' = out s \<and> mode s' = mode s
            \<and> (if index s + 1 \<ge> RXBUF_SIZE
                then index s' = 0 \<and> flags s' = 2 \<and> err s' = err s @ overflow_msg
                else index s' = index s + 1 \<and> flags s' = flags s \<and> err s' = err s))
     \<and> (\<exists>s'. rx_loop clk (fresh m) (SLIP_END # pre @ [SLIP_ESC, c] @ post @ [SLIP_END]) = Inr s'
            \<and> out s' = slip_show ''SLIP:'' (slip_payload False pre @ c # slip_payload False post)
                          (int (length (slip_payload False pre @ c # slip_payload False post))) 0
            \<and> err s' = [])"
proof -
  have u: "unesc c = c" using c by (simp add: unesc_def)
  have step: "\<exists>s'. rx_byte ts s c = Inr s'
            \<and> rxbuf s' = (rxbuf s)[nat (index s) := c] \<and> rxbuf s' ! nat (index s) = c
            \<and> lastc s' = 0 \<and> out s' = out s \<and> mode s' = mode s
            \<and> (if index s + 1 \<ge> RXBUF_SIZE
                then index s' = 0 \<and> flags s' = 2 \<and> err s' = err s @ overflow_msg
                else index s' = index s + 1 \<and> flags s' = flags s \<and> err s' = err s)"
    using i esc by (simp add: rx_byte_data [OF dec c(3,4) i] u)
  let ?bs = "pre @ [SLIP_ESC, c] @ post"
  let ?D = "slip_payload False pre @ c # slip_payload False post"
  have D: "slip_payload False ?bs = ?D"
    using f(3) c(4) by (simp add: slip_payload_append u)
  have mf: "mode (fresh m) \<in> {MODE_SLIP, MODE_SLIP_AUTO, MODE_SLIP_HIDE}" using m by auto
  have "\<exists>s'. rx_loop clk (fresh m) (SLIP_END # ?bs @ [SLIP_END]) = Inr s' \<and> mode s' = mode (fresh m)
     \<and> index s' = 0 \<and> flags s' = 0 \<and> lastc s' = 0 \<and> err s' = err (fresh m)
     \<and> length (rxbuf s') = 2048
     \<and> take (length (slip_payload False ?bs)) (rxbuf s') = slip_payload False ?bs
     \<and> out s' = out (fresh m) @ (if mode (fresh m) = MODE_SLIP_HIDE then []
                          else slip_show ''SLIP:'' (slip_payload False ?bs) (int (length (slip_payload False ?bs))) 0)"
    by (rule rx_frame [OF mf]) (use f c D in simp_all)
  then have "\<exists>s'. rx_loop clk (fresh m) (SLIP_END # pre @ [SLIP_ESC, c] @ post @ [SLIP_END]) = Inr s'
            \<and> out s' = slip_show ''SLIP:'' ?D (int (length ?D)) 0 \<and> err s' = []"
    unfolding D using m by auto
  with step show ?thesis by blast
qed

text \<open>The statement for the byte 41 after an escape byte, and for the packet 40 DB 41 42.\<close>

theorem malformed_escape_passes_witness:
  "decoding ((fresh MODE_SLIP)\<lparr>lastc := SLIP_ESC\<rparr>)
   \<and> (\<exists>s'. rx_byte [] ((fresh MODE_SLIP)\<lparr>lastc := SLIP_ESC\<rparr>) 0x41 = Inr s'
            \<and> rxbuf s' = (rxbuf (fresh MODE_SLIP))[0 := 0x41] \<and> rxbuf s' ! 0 = 0x41
            \<and> lastc s' = 0 \<and> out s' = [] \<and> mode s' = MODE_SLIP
            \<and> index s' = 1 \<and> flags s' = 0 \<and> err s' = [])
   \<and> (\<exists>s'. rx_loop no_clock (fresh MODE_SLIP) [SLIP_END, 0x40, SLIP_ESC, 0x41, 0x42, SLIP_END] = Inr s'
            \<and> out s' = slip_show ''SLIP:'' [0x40, 0x41, 0x42] 3 0 \<and> err s' = [])"
  using malformed_escape_passes [of "(fresh MODE_SLIP)\<lparr>lastc := SLIP_ESC\<rparr>" "0x41" MODE_SLIP
      "[0x40]" "[0x42]" "[]" no_clock]
  by (simp add: decoding_def)

text \<open>
  Claim C8 speaks of every byte that is neither DC nor DD. A delimiter after the escape
  byte is not stored: it closes the packet (C0 41 DB C0 shows the packet 41). An escape
  byte after the escape byte is not stored either: after C0 41 DB DB 42 the buffer holds
  41 42.
\<close>

theorem escape_then_delimiter_counterexample:
  "map_sum id index (rx_loop no_clock (fresh MODE_SLIP) [SLIP_END, 0x41, SLIP_ESC]) = Inr 1
   \<and> map_sum id lastc (rx_loop no_clock (fresh MODE_SLIP) [SLIP_END, 0x41, SLIP_ESC]) = Inr SLIP_ESC
   \<and> map_sum id index (rx_loop no_clock (fresh MODE_SLIP) [SLIP_END, 0x41, SLIP_ESC, SLIP_END]) = Inr 0
   \<and> map_sum id out (rx_loop no_clock (fresh MODE_SLIP) [SLIP_END, 0x41, SLIP_ESC, SLIP_END])
       = Inr (slip_show ''SLIP:'' [0x41] 1 0)
   \<and> map_sum id index (rx_loop no_clock (fresh MODE_SLIP) [SLIP_END, 0x41, SLIP_ESC, SLIP_ESC, 0x42]) = Inr 2
   \<and> map_sum id (take 2 \<circ> rxbuf) (rx_loop no_clock (fresh MODE_SLIP) [SLIP_END, 0x41, SLIP_ESC, SLIP_ESC, 0x42])
       = Inr [0x41, 0x42]"
  by code_simp

text \<open>
  Claim C10. In \<open>MODE_SLIP_AUTO\<close> and \<open>MODE_SLIP_HIDE\<close>, while \<open>flags\<close> is 0, the bytes
  other than the delimiter go to standard output as they are, and nothing else changes.
  A delimiter that closes a packet clears \<open>flags\<close> (and shows the packet in
  \<open>MODE_SLIP_AUTO\<close> only, never in \<open>MODE_SLIP_HIDE\<close>), so the bytes after it are printed in
  the same way, in both modes. This lasts until the next delimiter: it sets \<open>flags\<close> to 1,
  and the byte after it is not printed.
\<close>

theorem unframed_bytes_pass_through:
  assumes m: "mode s = MODE_SLIP_AUTO \<or> mode s = MODE_SLIP_HIDE"
    and s: "length (rxbuf s) = 2048" "index s \<le> 2048"
    and bs: "SLIP_END \<notin> set bs" and c: "c \<noteq> SLIP_END"
  shows "(flags s = 0 \<longrightarrow> rx_loop clk s bs = Inr (s\<lparr>out := out s @ map byte_char bs\<rparr>))
     \<and> (0 < index s \<longrightarrow>
          (\<exists>s1. rx_byte ts s SLIP_END = Inr s1 \<and> flags s1 = 0 \<and> index s1 = 0
             \<and> out s1 = out s @ (if flags s \<noteq> 2 \<and> mode s = MODE_SLIP_AUTO
                                  then slip_show ''SLIP:'' (rxbuf s) (index s) 0 else [])
             \<and> rx_loop clk s1 bs = Inr (s1\<lparr>out := out s1 @ map byte_char bs\<rparr>)))
     \<and> (flags s = 0 \<and> index s = 0 \<longrightarrow>
          (\<exists>s2 s3. rx_loop clk s (bs @ [SLIP_END]) = Inr s2 \<and> flags s2 = 1
             \<and> out s2 = out s @ map byte_char bs
             \<and> rx_byte ts s2 c = Inr s3 \<and> out s3 = out s2))"
proof -
  have ms: "mode s \<in> {MODE_SLIP, MODE_SLIP_AUTO, MODE_SLIP_HIDE}" using m by auto
  have a: "rx_loop clk s bs = Inr (s\<lparr>out := out s @ map byte_char bs\<rparr>)" if "flags s = 0"
    using m that bs by (rule rx_loop_pass)
  have b: "\<exists>s1. rx_byte ts s SLIP_END = Inr s1 \<and> flags s1 = 0 \<and> index s1 = 0
             \<and> out s1 = out s @ (if flags s \<noteq> 2 \<and> mode s = MODE_SLIP_AUTO
                                  then slip_show ''SLIP:'' (rxbuf s) (index s) 0 else [])
             \<and> rx_loop clk s1 bs = Inr (s1\<lparr>out := out s1 @ map byte_char bs\<rparr>)"
    if pos: "0 < index s"
  proof -
    define s1 where "s1 = s\<lparr>out := out s @ (if flags s \<noteq> 2 \<and> mode s \<noteq> MODE_SLIP_HIDE
                              then slip_show ''SLIP:'' (rxbuf s) (index s) 0 else []),
            lastc := 0, index := 0, flags := 0\<rparr>"
    have le: "index s \<le> int (length (rxbuf s))" using s by simp
    have step: "rx_byte ts s SLIP_END = Inr s1"
      unfolding s1_def by (rule rx_byte_end_close [OF ms pos le])
    have "rx_loop clk s1 bs = Inr (s1\<lparr>out := out s1 @ map byte_char bs\<rparr>)"
      by (rule rx_loop_pass) (use m bs in \<open>auto simp: s1_def\<close>)
    moreover have "out s1 = out s @ (if flags s \<noteq> 2 \<and> mode s = MODE_SLIP_AUTO
                                  then slip_show ''SLIP:'' (rxbuf s) (index s) 0 else [])"
      using m by (auto simp: s1_def)
    moreover have "flags s1 = 0" "index s1 = 0" by (simp_all add: s1_def)
    ultimately show ?thesis using step by blast
  qed
  have d: "\<exists>s2 s3. rx_loop clk s (bs @ [SLIP_END]) = Inr s2 \<and> flags s2 = 1
             \<and> out s2 = out s @ map byte_char bs
             \<and> rx_byte ts s2 c = Inr s3 \<and> out s3 = out s2"
    if z: "flags s = 0" "index s = 0"
  proof -
    let ?s1 = "s\<lparr>out := out s @ map byte_char bs\<rparr>"
    let ?s2 = "?s1\<lparr>flags := 1\<rparr>"
    have "mode ?s1 \<in> {MODE_SLIP, MODE_SLIP_AUTO, MODE_SLIP_HIDE}" "index ?s1 \<le> 0"
      using ms z by simp_all
    from rx_byte_end_empty [OF this]
    have "rx_byte t ?s1 SLIP_END = Inr ?s2" for t using z by simp
    then have run: "rx_loop clk s (bs @ [SLIP_END]) = Inr ?s2"
      using a [OF z(1)] by (simp only: rx_loop_append) simp
    have "\<exists>s3. rx_byte ts ?s2 c = Inr s3 \<and> out s3 = out ?s2"
      using m c s z by (auto simp: rx_byte_def slip_case_def rxbuf_put_def)
    then show ?thesis using run by auto
  qed
  show ?thesis using a b d by blast
qed

text \<open>The statement in \<open>MODE_SLIP_HIDE\<close> for the bytes 41 42: at the initial state, and after a packet of one byte.\<close>

theorem unframed_bytes_pass_through_witness:
  "rx_loop no_clock (fresh MODE_SLIP_HIDE) [0x41, 0x42]
     = Inr ((fresh MODE_SLIP_HIDE)\<lparr>out := [byte_char 0x41, byte_char 0x42]\<rparr>)
   \<and> (\<exists>s1. rx_byte [] ((fresh MODE_SLIP_HIDE)\<lparr>index := 1, flags := 1\<rparr>) SLIP_END = Inr s1
         \<and> flags s1 = 0 \<and> index s1 = 0 \<and> out s1 = []
         \<and> rx_loop no_clock s1 [0x41, 0x42] = Inr (s1\<lparr>out := out s1 @ [byte_char 0x41, byte_char 0x42]\<rparr>))
   \<and> (\<exists>s2 s3. rx_loop no_clock (fresh MODE_SLIP_HIDE) [0x41, 0x42, SLIP_END] = Inr s2 \<and> flags s2 = 1
         \<and> out s2 = [byte_char 0x41, byte_char 0x42]
         \<and> rx_byte [] s2 0x43 = Inr s3 \<and> out s3 = out s2)"
  using unframed_bytes_pass_through [of "fresh MODE_SLIP_HIDE" "[0x41, 0x42]" "0x43" no_clock "[]"]
    unframed_bytes_pass_through [of "(fresh MODE_SLIP_HIDE)\<lparr>index := 1, flags := 1\<rparr>" "[0x41, 0x42]" "0x43" no_clock "[]"]
  by simp

end
